theory Spec2Isabelle
  imports Main "HOL-Library.Word" "HOL-Library.Multiset" "HOL-Library.Monad_Syntax"
begin

unbundle bit_operations_syntax

section \<open>Data model\<close>

text \<open>
  \<^verbatim>\<open>type NodeID = uint64\<close>; a segment or edge key is \<^verbatim>\<open>[2]uint64\<close>, here a pair.
  Layer and order are Go \<^verbatim>\<open>int\<close>s. They index slices, so their magnitude is bounded by the
  number of nodes held in memory and they never come near \<open>2^63\<close>; they are modelled as
  unbounded integers. A negative index panics, which the model keeps.
\<close>

type_synonym NodeID = "64 word"
type_synonym edge = "NodeID \<times> NodeID"

record LayerPosition =
  Layer :: int
  Order :: int

text \<open>
  A Go map is a finite partial function. \<^verbatim>\<open>range\<close> over a map visits every key once, in an
  order the language leaves unspecified and that may differ between two loops over the same
  map. Every function below that ranges over a map therefore takes the visiting order of
  that loop as an explicit list, and \<open>range_of m ks\<close> says that \<open>ks\<close> is a possible order.
\<close>

definition range_of :: "('k \<rightharpoonup> 'v) \<Rightarrow> 'k list \<Rightarrow> bool" where
  "range_of m ks \<longleftrightarrow> distinct ks \<and> set ks = dom m"

record LayeredGraph =
  Segments :: "edge \<rightharpoonup> bool"
  Dummy :: "NodeID \<rightharpoonup> bool"
  NodePosition :: "NodeID \<rightharpoonup> LayerPosition"
  LgEdges :: "edge \<rightharpoonup> NodeID list"

text \<open>Reading a missing key of a Go map gives the zero value of the value type.\<close>

definition zeroPosition :: LayerPosition where
  "zeroPosition = \<lparr>Layer = 0, Order = 0\<rparr>"

definition posOf :: "(NodeID \<rightharpoonup> LayerPosition) \<Rightarrow> NodeID \<Rightarrow> LayerPosition" where
  "posOf m n = (case m n of Some p \<Rightarrow> p | None \<Rightarrow> zeroPosition)"

definition flag :: "('k \<rightharpoonup> bool) \<Rightarrow> 'k \<Rightarrow> bool" where
  "flag m k = (case m k of Some b \<Rightarrow> b | None \<Rightarrow> False)"

datatype error =
  WrongDirection edge int int
  | NotSameLayer LayerPosition LayerPosition
  | IndexOutOfRange
  | OneNodeEdge edge

section \<open>LayeredGraph methods\<close>

text \<open>\<^verbatim>\<open>Validate\<close>: the first segment, in visiting order, with \<open>from >= to\<close> is reported.\<close>

fun Validate_loop :: "LayeredGraph \<Rightarrow> edge list \<Rightarrow> error option" where
  "Validate_loop g [] = None"
| "Validate_loop g (e # es) =
     (let from = Layer (posOf (NodePosition g) (fst e));
          to = Layer (posOf (NodePosition g) (snd e))
      in if from \<ge> to then Some (WrongDirection e from to) else Validate_loop g es)"

definition Validate :: "edge list \<Rightarrow> LayeredGraph \<Rightarrow> error option" where
  "Validate es g = Validate_loop g es"

definition IsInnerSegment :: "LayeredGraph \<Rightarrow> edge \<Rightarrow> bool" where
  "IsInnerSegment g segment \<longleftrightarrow> flag (Dummy g) (fst segment) \<and> flag (Dummy g) (snd segment)"

fun UpperNeighbors_loop :: "LayeredGraph \<Rightarrow> NodeID \<Rightarrow> edge list \<Rightarrow> NodeID list \<Rightarrow> NodeID list" where
  "UpperNeighbors_loop g node [] nodes = nodes"
| "UpperNeighbors_loop g node (e # es) nodes =
     UpperNeighbors_loop g node es
       (if snd e = node
        then (if Layer (posOf (NodePosition g) (fst e)) = Layer (posOf (NodePosition g) (snd e)) - 1
              then nodes @ [fst e] else nodes)
        else nodes)"

definition UpperNeighbors :: "edge list \<Rightarrow> LayeredGraph \<Rightarrow> NodeID \<Rightarrow> NodeID list" where
  "UpperNeighbors es g node = UpperNeighbors_loop g node es []"

fun LowerNeighbors_loop :: "LayeredGraph \<Rightarrow> NodeID \<Rightarrow> edge list \<Rightarrow> NodeID list \<Rightarrow> NodeID list" where
  "LowerNeighbors_loop g node [] nodes = nodes"
| "LowerNeighbors_loop g node (e # es) nodes =
     LowerNeighbors_loop g node es
       (if fst e = node
        then (if Layer (posOf (NodePosition g) (fst e)) = Layer (posOf (NodePosition g) (snd e)) - 1
              then nodes @ [fst e] else nodes)
        else nodes)"

definition LowerNeighbors :: "edge list \<Rightarrow> LayeredGraph \<Rightarrow> NodeID \<Rightarrow> NodeID list" where
  "LowerNeighbors es g node = LowerNeighbors_loop g node es []"

text \<open>A two-node layered graph: one segment from node 1 on layer 0 to node 2 on layer 1.\<close>

definition lg_pair :: LayeredGraph where
  "lg_pair = \<lparr>Segments = [(1, 2) \<mapsto> True], Dummy = Map.empty,
     NodePosition = [1 \<mapsto> \<lparr>Layer = 0, Order = 0\<rparr>, 2 \<mapsto> \<lparr>Layer = 1, Order = 0\<rparr>],
     LgEdges = [(1, 2) \<mapsto> [1, 2]]\<rparr>"

text \<open>One segment from node 1 on layer 0 to node 3 on layer 2, skipping layer 1.\<close>

definition lg_skip :: LayeredGraph where
  "lg_skip = \<lparr>Segments = [(1, 3) \<mapsto> True], Dummy = Map.empty,
     NodePosition = [1 \<mapsto> \<lparr>Layer = 0, Order = 0\<rparr>, 3 \<mapsto> \<lparr>Layer = 2, Order = 0\<rparr>],
     LgEdges = [(1, 3) \<mapsto> [1, 3]]\<rparr>"

section \<open>Crossing counter\<close>

text \<open>
  \<^verbatim>\<open>FenwickTree\<close> is a slice of Go \<^verbatim>\<open>int\<close>. Indices stay below the slice length and the
  stored counts below the number of segment pairs, so 64-bit overflow does not arise and
  \<^verbatim>\<open>idx & (-idx)\<close> on a positive 64-bit index is the same bit operation on an unbounded
  integer. In \<^verbatim>\<open>Update\<close> and \<^verbatim>\<open>Query\<close> the result \<open>None\<close> stands for a run that gives
  no result: an index out of range panics, and \<^verbatim>\<open>Update\<close> at index 0 never leaves its loop.
\<close>

definition lowbit :: "int \<Rightarrow> int" where
  "lowbit idx = idx AND (- idx)"

lemma lowbit_even: "lowbit (2 * y) = 2 * lowbit y"
proof -
  have "(2 * y) AND (- (2 * y)) = push_bit 1 y AND push_bit 1 (- y)"
    by (simp add: push_bit_eq_mult mult.commute)
  also have "\<dots> = push_bit 1 (y AND (- y))"
    by (simp only: push_bit_and)
  finally show ?thesis by (simp add: lowbit_def push_bit_eq_mult mult.commute)
qed

lemma lowbit_odd: "lowbit (2 * y + 1) = 1"
proof -
  have e: "- (2 * y + 1) = 1 + 2 * (NOT y)"
    by (simp add: not_int_def)
  have "(2 * y + 1) AND (1 + 2 * (NOT y)) = 1 + 2 * (y AND NOT y)"
    by (subst and_int_rec) simp
  then have "(2 * y + 1) AND (- (2 * y + 1)) = 1" by (simp only: e) simp
  then show ?thesis by (simp only: lowbit_def)
qed

lemma lowbit_0: "lowbit 0 = 0" by (simp add: lowbit_def)

partial_function (option) Update :: "int list \<Rightarrow> int \<Rightarrow> int \<Rightarrow> int list option" where
  "Update bt idx val =
     (if idx < int (length bt)
      then (if idx < 0 then None
            else Update (bt[nat idx := bt ! nat idx + val]) (idx + lowbit idx) val)
      else Some bt)"

declare Update.simps [code]

definition lb :: "nat \<Rightarrow> nat" where "lb p = nat (lowbit (int p))"

lemma lb_even: "lb (2 * p) = 2 * lb p"
  using lowbit_even [of "int p"] by (simp add: lb_def nat_mult_distrib)

lemma lb_odd: "lb (Suc (2 * p)) = 1"
  using lowbit_odd [of "int p"] by (simp add: lb_def add.commute)

lemma lowbit_nonneg: "0 \<le> lowbit (int p)"
  by (simp add: lowbit_def)

lemma lowbit_lb: "lowbit (int p) = int (lb p)"
  by (simp add: lb_def lowbit_nonneg)

lemma lb_pos_le: "0 < p \<Longrightarrow> 0 < lb p \<and> lb p \<le> p"
proof (induction p rule: less_induct)
  case (less p)
  show ?case
  proof (cases "even p")
    case True
    then obtain q where q: "p = 2 * q" by (elim evenE)
    with less.prems have "0 < q" "q < p" by auto
    with less.IH [of q] show ?thesis by (simp add: q lb_even)
  next
    case False
    then obtain q where q: "p = Suc (2 * q)" by (elim oddE) simp
    then show ?thesis by (simp add: lb_odd)
  qed
qed

function Query_loop :: "int list \<Rightarrow> int \<Rightarrow> int \<Rightarrow> int option" where
  "Query_loop bt idx acc =
     (if idx > 0
      then (if idx < int (length bt)
            then Query_loop bt (idx - lowbit idx) (acc + bt ! nat idx)
            else None)
      else Some acc)"
  by pat_completeness auto
termination
proof (relation "measure (\<lambda>(bt, idx, acc). nat idx)")
  show "wf (measure (\<lambda>(bt, idx, acc). nat idx))" by simp
next
  fix bt :: "int list" and idx acc :: int
  assume "0 < idx"
  then have "idx = int (nat idx)" "0 < nat idx" by simp_all
  then obtain p where p: "idx = int p" "0 < p" by blast
  with lb_pos_le [of p] show "((bt, idx - lowbit idx, acc + bt ! nat idx), (bt, idx, acc)) \<in> measure (\<lambda>(bt, idx, acc). nat idx)"
    by (auto simp add: lowbit_lb)
qed

definition Query :: "int list \<Rightarrow> int \<Rightarrow> int option" where
  "Query bt idx = Query_loop bt idx 0"

declare Query_loop.simps [simp del]

definition NewFenwickTree :: "nat \<Rightarrow> int list" where
  "NewFenwickTree nbElements = replicate (nbElements + 1) 0"

fun crossings_inner ::
  "(edge \<rightharpoonup> bool) \<Rightarrow> NodeID list \<Rightarrow> NodeID \<Rightarrow> nat \<Rightarrow> int list \<times> int \<Rightarrow> (int list \<times> int) option" where
  "crossings_inner segments ltop node 0 st = Some st"
| "crossings_inner segments ltop node (Suc j) st =
     (if flag segments (ltop ! j, node)
      then (case Update (fst st) (int j + 1) 1 of
              None \<Rightarrow> None
            | Some bt' \<Rightarrow>
                (case Query bt' (int j) of
                   None \<Rightarrow> None
                 | Some q \<Rightarrow> crossings_inner segments ltop node j (bt', snd st + q)))
      else crossings_inner segments ltop node j st)"

fun crossings_outer ::
  "(edge \<rightharpoonup> bool) \<Rightarrow> NodeID list \<Rightarrow> NodeID list \<Rightarrow> nat \<Rightarrow> int list \<times> int \<Rightarrow> (int list \<times> int) option" where
  "crossings_outer segments ltop lbottom 0 st = Some st"
| "crossings_outer segments ltop lbottom (Suc i) st =
     (case crossings_inner segments ltop (lbottom ! i) (length ltop) st of
        None \<Rightarrow> None
      | Some st' \<Rightarrow> crossings_outer segments ltop lbottom i st')"

definition numCrossingsBetweenLayers :: "(edge \<rightharpoonup> bool) \<Rightarrow> NodeID list \<Rightarrow> NodeID list \<Rightarrow> int option" where
  "numCrossingsBetweenLayers segments ltop lbottom =
     map_option snd
       (crossings_outer segments ltop lbottom (length lbottom) (NewFenwickTree (length ltop), 0))"

definition naiveCrossings :: "(edge \<rightharpoonup> bool) \<Rightarrow> NodeID list \<Rightarrow> NodeID list \<Rightarrow> int" where
  "naiveCrossings segments ltop lbottom =
     int (length [(j', i', j, i).
        j \<leftarrow> [0 ..< length ltop], i \<leftarrow> [0 ..< length lbottom],
        j' \<leftarrow> [0 ..< j], i' \<leftarrow> [Suc i ..< length lbottom],
        flag segments (ltop ! j', lbottom ! i') \<and> flag segments (ltop ! j, lbottom ! i)])"


text \<open>\<^verbatim>\<open>numCrossings\<close>: the sum over adjacent layer pairs.\<close>

fun numCrossings_loop :: "(edge \<rightharpoonup> bool) \<Rightarrow> NodeID list list \<Rightarrow> nat \<Rightarrow> int \<Rightarrow> int option" where
  "numCrossings_loop segments layers 0 cnt = Some cnt"
| "numCrossings_loop segments layers (Suc n) cnt =
     (let i = length layers - Suc n
      in if i = 0 then numCrossings_loop segments layers n cnt
         else (case numCrossingsBetweenLayers segments (layers ! (i - 1)) (layers ! i) of
                 None \<Rightarrow> None
               | Some c \<Rightarrow> numCrossings_loop segments layers n (cnt + c)))"

definition numCrossings :: "(edge \<rightharpoonup> bool) \<Rightarrow> NodeID list list \<Rightarrow> int option" where
  "numCrossings segments layers = numCrossings_loop segments layers (length layers) 0"

section \<open>Layered graph construction\<close>

text \<open>
  The builder only looks at the keys of \<^verbatim>\<open>g.Nodes\<close> and \<^verbatim>\<open>g.Edges\<close>, through its \<^verbatim>\<open>range\<close>
  loops. In \<^verbatim>\<open>assignLevels\<close> the queue loop has no bound of its own (on a cyclic graph it
  never ends), so it is a partial function and \<open>None\<close> stands for a run that gives no result.
\<close>

record Position =
  X :: int
  Y :: int

record Node = Position +
  W :: int
  H :: int

record Edge =
  Path :: "Position list"

record Graph =
  Edges :: "edge \<rightharpoonup> Edge"
  Nodes :: "NodeID \<rightharpoonup> Node"

text \<open>The visiting orders of the \<^verbatim>\<open>range\<close> loops that build a layered graph.\<close>

record BuildOrders =
  neighborsOrder :: "edge list"    \<comment> \<open>\<^verbatim>\<open>assignLevels\<close>, over \<^verbatim>\<open>g.Edges\<close>\<close>
  hasParentOrder :: "edge list"    \<comment> \<open>\<^verbatim>\<open>Roots\<close>, over \<^verbatim>\<open>g.Edges\<close>\<close>
  rootsOrder :: "NodeID list"      \<comment> \<open>\<^verbatim>\<open>Roots\<close>, over \<^verbatim>\<open>g.Nodes\<close>\<close>
  maxNodeIDOrder :: "edge list"    \<comment> \<open>\<^verbatim>\<open>maxNodeID\<close>, over \<^verbatim>\<open>g.Edges\<close>\<close>
  makeEdgesOrder :: "edge list"    \<comment> \<open>\<^verbatim>\<open>makeEdges\<close>, over \<^verbatim>\<open>g.Edges\<close>\<close>
  makeSegmentsOrder :: "edge list" \<comment> \<open>\<^verbatim>\<open>makeSegments\<close>, over the chains\<close>
  makeDummyOrder :: "edge list"    \<comment> \<open>\<^verbatim>\<open>makeDummy\<close>, over the chains\<close>

definition build_orders :: "Graph \<Rightarrow> BuildOrders \<Rightarrow> bool" where
  "build_orders g ro \<longleftrightarrow>
     range_of (Edges g) (neighborsOrder ro) \<and> range_of (Edges g) (hasParentOrder ro) \<and>
     range_of (Nodes g) (rootsOrder ro) \<and> range_of (Edges g) (maxNodeIDOrder ro) \<and>
     range_of (Edges g) (makeEdgesOrder ro) \<and> range_of (Edges g) (makeSegmentsOrder ro) \<and>
     range_of (Edges g) (makeDummyOrder ro)"

fun hasParent_loop :: "edge list \<Rightarrow> (NodeID \<rightharpoonup> bool) \<Rightarrow> (NodeID \<rightharpoonup> bool)" where
  "hasParent_loop [] hasParent = hasParent"
| "hasParent_loop (e # es) hasParent = hasParent_loop es (hasParent(snd e \<mapsto> True))"

fun roots_loop :: "(NodeID \<rightharpoonup> bool) \<Rightarrow> NodeID list \<Rightarrow> NodeID list \<Rightarrow> NodeID list" where
  "roots_loop hasParent [] roots = roots"
| "roots_loop hasParent (n # ns) roots =
     roots_loop hasParent ns (if \<not> flag hasParent n then roots @ [n] else roots)"

definition Roots :: "edge list \<Rightarrow> NodeID list \<Rightarrow> NodeID list" where
  "Roots es ns = roots_loop (hasParent_loop es Map.empty) ns []"

fun maxNodeID_loop :: "edge list \<Rightarrow> NodeID \<Rightarrow> NodeID" where
  "maxNodeID_loop [] maxNodeID = maxNodeID"
| "maxNodeID_loop (e # es) maxNodeID =
     (let m1 = (if fst e > maxNodeID then fst e else maxNodeID);
          m2 = (if snd e > m1 then snd e else m1)
      in maxNodeID_loop es m2)"

definition maxNodeID :: "edge list \<Rightarrow> NodeID" where
  "maxNodeID es = maxNodeID_loop es 0"

fun neighbors_loop :: "edge list \<Rightarrow> (NodeID \<Rightarrow> NodeID list) \<Rightarrow> (NodeID \<Rightarrow> NodeID list)" where
  "neighbors_loop [] neighbors = neighbors"
| "neighbors_loop (e # es) neighbors =
     neighbors_loop es (neighbors(fst e := neighbors (fst e) @ [snd e]))"

text \<open>The loop over the children of the popped node \<open>p\<close>.\<close>

fun children_loop ::
  "NodeID \<Rightarrow> NodeID list \<Rightarrow> (NodeID \<rightharpoonup> LayerPosition) \<times> NodeID list \<Rightarrow>
     (NodeID \<rightharpoonup> LayerPosition) \<times> NodeID list" where
  "children_loop p [] st = st"
| "children_loop p (child # cs) (nodeYX, que) =
     (let l = Layer (posOf nodeYX p) + 1
      in children_loop p cs
           (if l > Layer (posOf nodeYX child)
            then nodeYX(child \<mapsto> \<lparr>Layer = l, Order = 0\<rparr>) else nodeYX,
            que @ [child]))"

partial_function (option) queue_loop ::
  "(NodeID \<Rightarrow> NodeID list) \<Rightarrow> NodeID list \<Rightarrow> (NodeID \<rightharpoonup> LayerPosition) \<Rightarrow>
     (NodeID \<rightharpoonup> LayerPosition) option" where
  "queue_loop neighbors que nodeYX =
     (case que of
        [] \<Rightarrow> Some nodeYX
      | p # rest \<Rightarrow>
          (case children_loop p (neighbors p) (nodeYX, rest) of
             (nodeYX', que') \<Rightarrow> queue_loop neighbors que' nodeYX'))"

declare queue_loop.simps [code]

fun assignLevels_roots ::
  "(NodeID \<Rightarrow> NodeID list) \<Rightarrow> NodeID list \<Rightarrow> (NodeID \<rightharpoonup> LayerPosition) \<Rightarrow>
     (NodeID \<rightharpoonup> LayerPosition) option" where
  "assignLevels_roots neighbors [] nodeYX = Some nodeYX"
| "assignLevels_roots neighbors (root # roots) nodeYX =
     (case queue_loop neighbors [root] (nodeYX(root \<mapsto> zeroPosition)) of
        None \<Rightarrow> None
      | Some nodeYX' \<Rightarrow> assignLevels_roots neighbors roots nodeYX')"

definition assignLevels :: "BuildOrders \<Rightarrow> (NodeID \<rightharpoonup> LayerPosition) option" where
  "assignLevels ro =
     assignLevels_roots (neighbors_loop (neighborsOrder ro) (\<lambda>n. []))
       (Roots (hasParentOrder ro) (rootsOrder ro)) Map.empty"

text \<open>
  The fake nodes of one long edge, for \<open>layer\<close> from \<open>fromLayer + 1\<close> up to \<open>toLayer - 1\<close>.
  The state is the position map, the chain so far and the next fake id; the id is a
  \<^verbatim>\<open>uint64\<close> and \<^verbatim>\<open>nextFakeNodeID++\<close> wraps.
\<close>

fun fake_loop ::
  "int list \<Rightarrow> (NodeID \<rightharpoonup> LayerPosition) \<times> NodeID list \<times> NodeID \<Rightarrow>
     (NodeID \<rightharpoonup> LayerPosition) \<times> NodeID list \<times> NodeID" where
  "fake_loop [] st = st"
| "fake_loop (layer # layers) (nodeYX, newEdge, nextFakeNodeID) =
     fake_loop layers
       (nodeYX(nextFakeNodeID \<mapsto> \<lparr>Layer = layer, Order = 0\<rparr>),
        newEdge @ [nextFakeNodeID], nextFakeNodeID + 1)"

fun makeEdges_loop ::
  "edge list \<Rightarrow> (edge \<rightharpoonup> NodeID list) \<times> (NodeID \<rightharpoonup> LayerPosition) \<times> NodeID \<Rightarrow>
     (edge \<rightharpoonup> NodeID list) \<times> (NodeID \<rightharpoonup> LayerPosition) \<times> NodeID" where
  "makeEdges_loop [] st = st"
| "makeEdges_loop (e # es) (edges, nodeYX, nextFakeNodeID) =
     (let fromLayer = Layer (posOf nodeYX (fst e));
          toLayer = Layer (posOf nodeYX (snd e));
          (nodeYX', newEdge, next') =
             (if toLayer - fromLayer > 1
              then fake_loop [fromLayer + 1 .. toLayer - 1] (nodeYX, [fst e], nextFakeNodeID)
              else (nodeYX, [fst e], nextFakeNodeID))
      in makeEdges_loop es (edges(e \<mapsto> newEdge @ [snd e]), nodeYX', next'))"

text \<open>\<^verbatim>\<open>makeEdges\<close> returns the chains and, through the shared map, the extended positions.\<close>

definition makeEdges ::
  "BuildOrders \<Rightarrow> (NodeID \<rightharpoonup> LayerPosition) \<Rightarrow> (edge \<rightharpoonup> NodeID list) \<times> (NodeID \<rightharpoonup> LayerPosition)" where
  "makeEdges ro nodeYX =
     (case makeEdges_loop (makeEdgesOrder ro) (Map.empty, nodeYX, maxNodeID (maxNodeIDOrder ro) + 1) of
        (edges, nodeYX', next') \<Rightarrow> (edges, nodeYX'))"

fun chain_segments :: "NodeID list \<Rightarrow> (edge \<rightharpoonup> bool) \<Rightarrow> (edge \<rightharpoonup> bool)" where
  "chain_segments (a # b # ns) segments = chain_segments (b # ns) (segments((a, b) \<mapsto> True))"
| "chain_segments ns segments = segments"

fun makeSegments_loop ::
  "(edge \<rightharpoonup> NodeID list) \<Rightarrow> edge list \<Rightarrow> (edge \<rightharpoonup> bool) \<Rightarrow> (edge \<rightharpoonup> bool) option" where
  "makeSegments_loop edges [] segments = Some segments"
| "makeSegments_loop edges (e # es) segments =
     (case edges e of
        None \<Rightarrow> None
      | Some nodes \<Rightarrow>
          if length nodes = 2 then makeSegments_loop edges es (segments(e \<mapsto> True))
          else if length nodes > 2 then makeSegments_loop edges es (chain_segments nodes segments)
          else None)"

definition makeSegments :: "edge list \<Rightarrow> (edge \<rightharpoonup> NodeID list) \<Rightarrow> (edge \<rightharpoonup> bool) option" where
  "makeSegments ks edges = makeSegments_loop edges ks Map.empty"

fun chain_dummy :: "NodeID list \<Rightarrow> nat \<Rightarrow> (NodeID \<rightharpoonup> bool) \<Rightarrow> (NodeID \<rightharpoonup> bool)" where
  "chain_dummy nodes 0 dummy = dummy"
| "chain_dummy nodes (Suc k) dummy =
     (let i = length nodes - Suc k
      in chain_dummy nodes k
           (if i = 0 \<or> i = length nodes - 1 then dummy else dummy(nodes ! i \<mapsto> True)))"

fun makeDummy_loop ::
  "(edge \<rightharpoonup> NodeID list) \<Rightarrow> edge list \<Rightarrow> (NodeID \<rightharpoonup> bool) \<Rightarrow> (NodeID \<rightharpoonup> bool)" where
  "makeDummy_loop edges [] dummy = dummy"
| "makeDummy_loop edges (e # es) dummy =
     (let nodes = (case edges e of Some ns \<Rightarrow> ns | None \<Rightarrow> [])
      in makeDummy_loop edges es
           (if length nodes > 2 then chain_dummy nodes (length nodes) dummy else dummy))"

definition makeDummy :: "edge list \<Rightarrow> (edge \<rightharpoonup> NodeID list) \<Rightarrow> (NodeID \<rightharpoonup> bool)" where
  "makeDummy ks edges = makeDummy_loop edges ks Map.empty"

definition NewLayeredGraph :: "BuildOrders \<Rightarrow> LayeredGraph option" where
  "NewLayeredGraph ro =
     (case assignLevels ro of
        None \<Rightarrow> None
      | Some positions0 \<Rightarrow>
          (case makeEdges ro positions0 of
             (edges, positions) \<Rightarrow>
               (case makeSegments (makeSegmentsOrder ro) edges of
                  None \<Rightarrow> None
                | Some segments \<Rightarrow>
                    Some \<lparr>Segments = segments, Dummy = makeDummy (makeDummyOrder ro) edges,
                          NodePosition = positions, LgEdges = edges\<rparr>)))"

text \<open>Example graphs.\<close>

definition node0 :: Node where
  "node0 = \<lparr>X = 0, Y = 0, W = 10, H = 10\<rparr>"

definition edge0 :: Edge where
  "edge0 = \<lparr>Path = []\<rparr>"

text \<open>The transitive triangle \<open>1 \<rightarrow> 2 \<rightarrow> 3\<close>, \<open>1 \<rightarrow> 3\<close>, and a node 4 that touches no edge.\<close>

definition g_tri :: Graph where
  "g_tri = \<lparr>Edges = [(1, 2) \<mapsto> edge0, (2, 3) \<mapsto> edge0, (1, 3) \<mapsto> edge0],
            Nodes = [1 \<mapsto> node0, 2 \<mapsto> node0, 3 \<mapsto> node0, 4 \<mapsto> node0]\<rparr>"

definition ro_tri :: BuildOrders where
  "ro_tri = \<lparr>neighborsOrder = [(1, 2), (2, 3), (1, 3)], hasParentOrder = [(2, 3), (1, 2), (1, 3)],
     rootsOrder = [4, 3, 2, 1], maxNodeIDOrder = [(1, 3), (1, 2), (2, 3)],
     makeEdgesOrder = [(1, 3), (2, 3), (1, 2)], makeSegmentsOrder = [(1, 2), (1, 3), (2, 3)],
     makeDummyOrder = [(2, 3), (1, 3), (1, 2)]\<rparr>"

text \<open>One edge between two nodes that are not keys of \<^verbatim>\<open>Nodes\<close>.\<close>

definition g_undeclared :: Graph where
  "g_undeclared = \<lparr>Edges = [(1, 2) \<mapsto> edge0], Nodes = Map.empty\<rparr>"

definition ro_undeclared :: BuildOrders where
  "ro_undeclared = \<lparr>neighborsOrder = [(1, 2)], hasParentOrder = [(1, 2)],
     rootsOrder = [], maxNodeIDOrder = [(1, 2)], makeEdgesOrder = [(1, 2)],
     makeSegmentsOrder = [(1, 2)], makeDummyOrder = [(1, 2)]\<rparr>"

text \<open>The triangle on the ids \<open>0\<close>, \<open>1\<close> and \<open>2^64 - 1\<close>, the largest \<^verbatim>\<open>uint64\<close>.\<close>

definition g_top :: Graph where
  "g_top = \<lparr>Edges = [(0, 1) \<mapsto> edge0, (1, - 1) \<mapsto> edge0, (0, - 1) \<mapsto> edge0],
            Nodes = [0 \<mapsto> node0, 1 \<mapsto> node0, - 1 \<mapsto> node0]\<rparr>"

definition ro_top :: BuildOrders where
  "ro_top = \<lparr>neighborsOrder = [(0, 1), (1, - 1), (0, - 1)], hasParentOrder = [(0, 1), (1, - 1), (0, - 1)],
     rootsOrder = [0, 1, - 1], maxNodeIDOrder = [(0, 1), (1, - 1), (0, - 1)],
     makeEdgesOrder = [(0, 1), (1, - 1), (0, - 1)], makeSegmentsOrder = [(0, 1), (1, - 1), (0, - 1)],
     makeDummyOrder = [(0, 1), (1, - 1), (0, - 1)]\<rparr>"

section \<open>Slices and sorting\<close>

text \<open>Indexing a slice with a Go \<^verbatim>\<open>int\<close>; out of range panics.\<close>

definition at :: "'a list \<Rightarrow> int \<Rightarrow> 'a option" where
  "at xs i = (if 0 \<le> i \<and> i < int (length xs) then Some (xs ! nat i) else None)"

definition at2 :: "'a list list \<Rightarrow> int \<Rightarrow> int \<Rightarrow> 'a option" where
  "at2 xss i j = (case at xss i of None \<Rightarrow> None | Some xs \<Rightarrow> at xs j)"

text \<open>
  \<^verbatim>\<open>sort.Slice\<close> is modelled by the insertion sort that Go runs on slices of at most 12
  elements; the comparison may panic. Where the keys are pairwise different, every sorting
  algorithm returns this same list.
\<close>

fun insertLess :: "('a \<Rightarrow> 'a \<Rightarrow> bool option) \<Rightarrow> 'a \<Rightarrow> 'a list \<Rightarrow> 'a list option" where
  "insertLess lt a [] = Some [a]"
| "insertLess lt a (b # rs) =
     (case lt a b of
        None \<Rightarrow> None
      | Some True \<Rightarrow> map_option ((#) b) (insertLess lt a rs)
      | Some False \<Rightarrow> Some (a # b # rs))"

fun sortSlice_loop :: "('a \<Rightarrow> 'a \<Rightarrow> bool option) \<Rightarrow> 'a list \<Rightarrow> 'a list \<Rightarrow> 'a list option" where
  "sortSlice_loop lt [] rs = Some (rev rs)"
| "sortSlice_loop lt (a # as) rs =
     (case insertLess lt a rs of None \<Rightarrow> None | Some rs' \<Rightarrow> sortSlice_loop lt as rs')"

definition sortSlice :: "('a \<Rightarrow> 'a \<Rightarrow> bool option) \<Rightarrow> 'a list \<Rightarrow> 'a list option" where
  "sortSlice lt xs = sortSlice_loop lt xs []"

definition IsLeftOf :: "LayerPosition \<Rightarrow> LayerPosition \<Rightarrow> bool option" where
  "IsLeftOf p other = (if Layer p \<noteq> Layer other then None else Some (Order p < Order other))"

section \<open>Layers\<close>

fun maxLayer_loop :: "(NodeID \<rightharpoonup> LayerPosition) \<Rightarrow> NodeID list \<Rightarrow> int \<Rightarrow> int" where
  "maxLayer_loop np [] maxLayer = maxLayer"
| "maxLayer_loop np (n # ns) maxLayer =
     maxLayer_loop np ns (if Layer (posOf np n) > maxLayer then Layer (posOf np n) else maxLayer)"

fun fillLayers_loop ::
  "(NodeID \<rightharpoonup> LayerPosition) \<Rightarrow> NodeID list \<Rightarrow> NodeID list list \<Rightarrow> NodeID list list option" where
  "fillLayers_loop np [] layers = Some layers"
| "fillLayers_loop np (node # ns) layers =
     (let l = Layer (posOf np node)
      in if 0 \<le> l \<and> l < int (length layers)
         then fillLayers_loop np ns (layers[nat l := layers ! nat l @ [node]])
         else None)"

fun sortLayers_loop :: "(NodeID \<rightharpoonup> LayerPosition) \<Rightarrow> NodeID list list \<Rightarrow> NodeID list list option" where
  "sortLayers_loop np [] = Some []"
| "sortLayers_loop np (layer # layers) =
     (case sortSlice (\<lambda>a b. IsLeftOf (posOf np a) (posOf np b)) layer of
        None \<Rightarrow> None
      | Some srt \<Rightarrow> map_option ((#) srt) (sortLayers_loop np layers))"

text \<open>\<open>ks\<close> is the visiting order of the two loops over \<^verbatim>\<open>g.NodePosition\<close>.\<close>

definition Layers :: "NodeID list \<Rightarrow> LayeredGraph \<Rightarrow> NodeID list list option" where
  "Layers ks g =
     (let maxLayer = maxLayer_loop (NodePosition g) ks 0
      in case fillLayers_loop (NodePosition g) ks (replicate (nat (maxLayer + 1)) []) of
           None \<Rightarrow> None
         | Some layers \<Rightarrow> sortLayers_loop (NodePosition g) layers)"


section \<open>Brandes-Koepf horizontal coordinates\<close>

text \<open>
  Coordinates and shifts are Go \<^verbatim>\<open>int\<close>s, 64 bits wide, and the shifts start at the sentinels
  \<^verbatim>\<open>math.MaxInt\<close> and \<^verbatim>\<open>math.MinInt\<close>; \<open>i64\<close> is the wrap-around of 64-bit signed arithmetic,
  applied to every value that is stored or compared. \<open>quot\<close> is Go's division, which
  truncates towards zero.
\<close>

definition i64 :: "int \<Rightarrow> int" where
  "i64 a = (a + 2 ^ 63) mod 2 ^ 64 - 2 ^ 63"

definition MaxInt :: int where "MaxInt = 2 ^ 63 - 1"
definition MinInt :: int where "MinInt = - (2 ^ 63)"

definition quot :: "int \<Rightarrow> int \<Rightarrow> int" where
  "quot a b = (if (a < 0) = (b < 0) then \<bar>a\<bar> div \<bar>b\<bar> else - (\<bar>a\<bar> div \<bar>b\<bar>))"

definition getN :: "(NodeID \<rightharpoonup> NodeID) \<Rightarrow> NodeID \<Rightarrow> NodeID" where
  "getN m k = (case m k of Some v \<Rightarrow> v | None \<Rightarrow> 0)"

definition getI :: "(NodeID \<rightharpoonup> int) \<Rightarrow> NodeID \<Rightarrow> int" where
  "getI m k = (case m k of Some v \<Rightarrow> v | None \<Rightarrow> 0)"

definition getL :: "(NodeID \<rightharpoonup> NodeID list) \<Rightarrow> NodeID \<Rightarrow> NodeID list" where
  "getL m k = (case m k of Some v \<Rightarrow> v | None \<Rightarrow> [])"

record Neighbors =
  Up :: "NodeID \<rightharpoonup> NodeID list"
  Down :: "NodeID \<rightharpoonup> NodeID list"

fun neighbors_append :: "edge list \<Rightarrow> Neighbors \<Rightarrow> Neighbors" where
  "neighbors_append [] n = n"
| "neighbors_append (e # es) n =
     neighbors_append es
       \<lparr>Up = (Up n)(snd e \<mapsto> getL (Up n) (snd e) @ [fst e]),
        Down = (Down n)(fst e \<mapsto> getL (Down n) (fst e) @ [snd e])\<rparr>"

text \<open>Sorting every value of a neighbour map; \<open>ks\<close> are its keys.\<close>

fun sort_values ::
  "(NodeID \<rightharpoonup> LayerPosition) \<Rightarrow> NodeID list \<Rightarrow> (NodeID \<rightharpoonup> NodeID list) \<Rightarrow> (NodeID \<rightharpoonup> NodeID list) option" where
  "sort_values np [] m = Some m"
| "sort_values np (k # ks) m =
     (case sortSlice (\<lambda>a b. IsLeftOf (posOf np a) (posOf np b)) (getL m k) of
        None \<Rightarrow> None
      | Some d \<Rightarrow> sort_values np ks (m(k \<mapsto> d)))"

definition computeOrderedNeighbors :: "edge list \<Rightarrow> LayeredGraph \<Rightarrow> Neighbors option" where
  "computeOrderedNeighbors es g =
     (let n = neighbors_append es \<lparr>Up = Map.empty, Down = Map.empty\<rparr>
      in case sort_values (NodePosition g) (remdups (map fst es)) (Down n) of
           None \<Rightarrow> None
         | Some down \<Rightarrow>
             (case sort_values (NodePosition g) (remdups (map snd es)) (Up n) of
                None \<Rightarrow> None
              | Some up \<Rightarrow> Some \<lparr>Up = up, Down = down\<rparr>))"

subsection \<open>Type-1 conflicts (Alg. 1)\<close>

fun firstInner :: "LayeredGraph \<Rightarrow> NodeID \<Rightarrow> NodeID list \<Rightarrow> NodeID" where
  "firstInner g v [] = 0"
| "firstInner g v (u # us) = (if IsInnerSegment g (u, v) then u else firstInner g v us)"

text \<open>The loop over \<^verbatim>\<open>n.Up[nextLayer[l]]\<close>: \<open>k\<close> is the index in that list.\<close>

primrec mark_loop :: "int \<Rightarrow> int \<Rightarrow> NodeID \<Rightarrow> NodeID list \<Rightarrow> nat \<Rightarrow> (edge \<rightharpoonup> bool) \<Rightarrow> (edge \<rightharpoonup> bool)" where
  "mark_loop k0 k1 v [] k typeOneSegments = typeOneSegments"
| "mark_loop k0 k1 v (u # us) k typeOneSegments =
     mark_loop k0 k1 v us (Suc k)
       (if int k < k0 \<or> int k > k1 then typeOneSegments((u, v) \<mapsto> True) else typeOneSegments)"

text \<open>The loop \<^verbatim>\<open>for l <= l1\<close>, run \<open>n\<close> times from \<open>l\<close>.\<close>

primrec advance_loop ::
  "Neighbors \<Rightarrow> NodeID list \<Rightarrow> int \<Rightarrow> int \<Rightarrow> NodeID \<Rightarrow> nat \<Rightarrow> nat \<Rightarrow> (edge \<rightharpoonup> bool) \<Rightarrow> (edge \<rightharpoonup> bool)" where
  "advance_loop n nextLayer k0 k1 v 0 = (\<lambda>l typeOneSegments. typeOneSegments)"
| "advance_loop n nextLayer k0 k1 v (Suc c) = (\<lambda>l typeOneSegments.
     advance_loop n nextLayer k0 k1 v c (Suc l)
       (mark_loop k0 k1 v (getL (Up n) (nextLayer ! l)) 0 typeOneSegments))"

text \<open>The loop over \<^verbatim>\<open>nextLayer\<close>; the state is \<open>(typeOneSegments, k0, l)\<close>.\<close>

primrec nextLayer_loop ::
  "LayeredGraph \<Rightarrow> Neighbors \<Rightarrow> NodeID list \<Rightarrow> NodeID list \<Rightarrow> nat \<Rightarrow>
     (edge \<rightharpoonup> bool) \<times> int \<times> nat \<Rightarrow> (edge \<rightharpoonup> bool) \<times> int \<times> nat" where
  "nextLayer_loop g n layer nextLayer 0 = (\<lambda>st. st)"
| "nextLayer_loop g n layer nextLayer (Suc c) = (\<lambda>(typeOneSegments, k0, l).
      let l1 = length nextLayer - Suc c;
          v = nextLayer ! l1;
          upperNeighborInnerSegment = firstInner g v (getL (Up n) v)
      in nextLayer_loop g n layer nextLayer c
           (if l1 = length nextLayer - 1 \<or> upperNeighborInnerSegment \<noteq> 0
            then (let k1 = (if upperNeighborInnerSegment \<noteq> 0
                            then Order (posOf (NodePosition g) upperNeighborInnerSegment)
                            else int (length layer) - 1)
                  in (advance_loop n nextLayer k0 k1 v (Suc l1 - l) l typeOneSegments,
                      k1, if l \<le> l1 then Suc l1 else l))
            else (typeOneSegments, k0, l)))"

primrec preprocessing_loop ::
  "LayeredGraph \<Rightarrow> Neighbors \<Rightarrow> NodeID list list \<Rightarrow> nat \<Rightarrow> (edge \<rightharpoonup> bool) \<Rightarrow> (edge \<rightharpoonup> bool)" where
  "preprocessing_loop g n layers 0 = (\<lambda>typeOneSegments. typeOneSegments)"
| "preprocessing_loop g n layers (Suc c) = (\<lambda>typeOneSegments.
      let i = length layers - Suc c
      in preprocessing_loop g n layers c
           (if i = length layers - 1 then typeOneSegments
            else fst (nextLayer_loop g n (layers ! i) (layers ! (i + 1)) (length (layers ! (i + 1)))
                        (typeOneSegments, 0, 0))))"

definition preprocessing :: "NodeID list \<Rightarrow> LayeredGraph \<Rightarrow> Neighbors \<Rightarrow> (edge \<rightharpoonup> bool) option" where
  "preprocessing ks g n =
     (case Layers ks g of
        None \<Rightarrow> None
      | Some layers \<Rightarrow> Some (preprocessing_loop g n layers (length layers) Map.empty))"


subsection \<open>The four directions\<close>

text \<open>
  \<^verbatim>\<open>TopLeft\<close>, \<^verbatim>\<open>TopRight\<close>, \<^verbatim>\<open>BottomLeft\<close> and \<^verbatim>\<open>BottomRight\<close> implement \<^verbatim>\<open>singleDirAlgo\<close> with
  four copies of the same three methods. The copies differ only where the model asks
  \<open>isTop\<close> (upper or lower neighbours, layers upwards or downwards) or \<open>isLeft\<close>
  (scan direction, comparison, sign of \<open>delta\<close>, sentinel).
\<close>

datatype direction = TopLeft | TopRight | BottomLeft | BottomRight

definition isLeft :: "direction \<Rightarrow> bool" where
  "isLeft dir \<longleftrightarrow> dir = TopLeft \<or> dir = BottomLeft"

definition isTop :: "direction \<Rightarrow> bool" where
  "isTop dir \<longleftrightarrow> dir = TopLeft \<or> dir = TopRight"

subsection \<open>Vertical alignment (Alg. 2)\<close>

text \<open>The loop over the median positions \<open>m\<close>; the state is \<open>(root, align, r)\<close>.\<close>

primrec align_loop ::
  "direction \<Rightarrow> LayeredGraph \<Rightarrow> (edge \<rightharpoonup> bool) \<Rightarrow> NodeID \<Rightarrow> NodeID list \<Rightarrow> nat list \<Rightarrow>
     (NodeID \<rightharpoonup> NodeID) \<times> (NodeID \<rightharpoonup> NodeID) \<times> int \<Rightarrow>
     (NodeID \<rightharpoonup> NodeID) \<times> (NodeID \<rightharpoonup> NodeID) \<times> int" where
  "align_loop dir g typeOneSegments v nbs [] = (\<lambda>st. st)"
| "align_loop dir g typeOneSegments v nbs (m # ms) = (\<lambda>(root, align, r).
     align_loop dir g typeOneSegments v nbs ms
       (if getN align v = v
        then (let u = nbs ! m;
                  ou = Order (posOf (NodePosition g) u)
              in if \<not> flag typeOneSegments (if isTop dir then (u, v) else (v, u)) \<and>
                    (if isLeft dir then r < ou else r > ou)
                 then (let align1 = align(u \<mapsto> v);
                           root1 = root(v \<mapsto> getN root u)
                       in (root1, align1(v \<mapsto> getN root1 v), ou))
                 else (root, align, r))
        else (root, align, r)))"

definition medians :: "direction \<Rightarrow> nat \<Rightarrow> nat list" where
  "medians dir d =
     (if isLeft dir then filter (\<lambda>m. m < d) [(d - 1) div 2 ..< Suc ((d + 1) div 2)]
      else (let first = (if (d + 1) div 2 \<ge> d then d - 1 else (d + 1) div 2)
            in rev [(d - 1) div 2 ..< Suc first]))"

primrec alignNodes_loop ::
  "direction \<Rightarrow> LayeredGraph \<Rightarrow> (edge \<rightharpoonup> bool) \<Rightarrow> Neighbors \<Rightarrow> NodeID list \<Rightarrow>
     (NodeID \<rightharpoonup> NodeID) \<times> (NodeID \<rightharpoonup> NodeID) \<times> int \<Rightarrow>
     (NodeID \<rightharpoonup> NodeID) \<times> (NodeID \<rightharpoonup> NodeID) \<times> int" where
  "alignNodes_loop dir g typeOneSegments n [] = (\<lambda>st. st)"
| "alignNodes_loop dir g typeOneSegments n (v # vs) = (\<lambda>st.
     let nbs = getL (if isTop dir then Up n else Down n) v
     in alignNodes_loop dir g typeOneSegments n vs
          (if length nbs > 0
           then align_loop dir g typeOneSegments v nbs (medians dir (length nbs)) st
           else st))"

primrec alignLayers_loop ::
  "direction \<Rightarrow> LayeredGraph \<Rightarrow> (edge \<rightharpoonup> bool) \<Rightarrow> Neighbors \<Rightarrow> NodeID list list \<Rightarrow>
     (NodeID \<rightharpoonup> NodeID) \<times> (NodeID \<rightharpoonup> NodeID) \<Rightarrow> (NodeID \<rightharpoonup> NodeID) \<times> (NodeID \<rightharpoonup> NodeID)" where
  "alignLayers_loop dir g typeOneSegments n [] = (\<lambda>st. st)"
| "alignLayers_loop dir g typeOneSegments n (layer # layers) = (\<lambda>(root, align).
     case alignNodes_loop dir g typeOneSegments n (if isLeft dir then layer else rev layer)
            (root, align, if isLeft dir then - 1 else MaxInt) of
       (root', align', r) \<Rightarrow> alignLayers_loop dir g typeOneSegments n layers (root', align'))"

definition selfMap :: "(NodeID \<rightharpoonup> LayerPosition) \<Rightarrow> (NodeID \<rightharpoonup> NodeID)" where
  "selfMap np = (\<lambda>v. case np v of None \<Rightarrow> None | Some p \<Rightarrow> Some v)"

definition verticalAlignment ::
  "direction \<Rightarrow> NodeID list \<Rightarrow> LayeredGraph \<Rightarrow> (edge \<rightharpoonup> bool) \<Rightarrow> Neighbors \<Rightarrow>
     ((NodeID \<rightharpoonup> NodeID) \<times> (NodeID \<rightharpoonup> NodeID)) option" where
  "verticalAlignment dir ks g typeOneSegments n =
     (case Layers ks g of
        None \<Rightarrow> None
      | Some layers \<Rightarrow>
          Some (alignLayers_loop dir g typeOneSegments n (if isTop dir then layers else rev layers)
                  (selfMap (NodePosition g), selfMap (NodePosition g))))"

subsection \<open>Horizontal compaction (Alg. 3)\<close>

text \<open>
  The map \<^verbatim>\<open>x\<close> is kept as an association list, so that the loop of \<^verbatim>\<open>runAlgo\<close> over its
  values can run; \<open>setX\<close> is the assignment \<^verbatim>\<open>x[k] = v\<close>.
\<close>

type_synonym xmap = "(NodeID \<times> int) list"

definition getX :: "xmap \<Rightarrow> NodeID \<Rightarrow> int" where
  "getX x k = (case map_of x k of Some v \<Rightarrow> v | None \<Rightarrow> 0)"

fun setX :: "xmap \<Rightarrow> NodeID \<Rightarrow> int \<Rightarrow> xmap" where
  "setX [] k v = [(k, v)]"
| "setX ((k', v') # x) k v = (if k' = k then (k, v) # x else (k', v') # setX x k v)"

type_synonym pstate = "xmap \<times> (NodeID \<rightharpoonup> NodeID) \<times> (NodeID \<rightharpoonup> int)"

text \<open>
  The node next to \<open>w\<close> on the side the scan comes from (\<^verbatim>\<open>Order - 1\<close> for the left variants,
  \<^verbatim>\<open>Order + 1\<close> for the right ones) as \<^verbatim>\<open>placeBlock\<close> reads it: \<open>None\<close> is an index out of
  range, \<open>Some None\<close> is the case that the guard of the \<^verbatim>\<open>if\<close> is false.
\<close>

definition sideNeighbor :: "bool \<Rightarrow> LayeredGraph \<Rightarrow> NodeID list list \<Rightarrow> NodeID \<Rightarrow> NodeID option option" where
  "sideNeighbor left g layers w =
     (let pw = posOf (NodePosition g) w
      in if left
         then (if Order pw > 0
               then map_option Some (at2 layers (Layer pw) (Order pw - 1))
               else Some None)
         else (case at layers (Layer pw) of
                 None \<Rightarrow> None
               | Some layer \<Rightarrow>
                   if Order pw < int (length layer) - 1
                   then map_option Some (at layer (Order pw + 1))
                   else Some None))"

text \<open>The body of the first loop of \<^verbatim>\<open>placeBlock\<close> after the recursive call has placed \<open>u\<close>.\<close>

definition afterPlaced :: "bool \<Rightarrow> int \<Rightarrow> NodeID \<Rightarrow> NodeID \<Rightarrow> pstate \<Rightarrow> pstate" where
  "afterPlaced left delta v u st =
     (case st of (x, sink, shift) \<Rightarrow>
        let sink' = (if getN sink v = v then sink(v \<mapsto> getN sink u) else sink)
        in if getN sink' v \<noteq> getN sink' u
           then (let s = (if left then i64 (getX x v - getX x u - delta)
                          else i64 (getX x v + getX x u + delta))
                 in if (if left then s < getI shift (getN sink' u) else s > getI shift (getN sink' u))
                    then (x, sink', shift(getN sink' u \<mapsto> s))
                    else (x, sink', shift))
           else (let s = (if left then i64 (getX x u + delta) else i64 (getX x u - delta))
                 in if (if left then s > getX x v else s < getX x v)
                    then (setX x v s, sink', shift)
                    else (x, sink', shift)))"

definition copyStep :: "NodeID \<Rightarrow> NodeID \<Rightarrow> pstate \<Rightarrow> pstate" where
  "copyStep v w st =
     (case st of (x, sink, shift) \<Rightarrow> (setX x w (getX x v), sink(w \<mapsto> getN sink v), shift))"

definition startPlace :: "NodeID \<Rightarrow> pstate \<Rightarrow> pstate" where
  "startPlace v st = (case st of (x, sink, shift) \<Rightarrow> (setX x v 0, sink, shift))"

text \<open>
  \<^verbatim>\<open>placeBlock\<close> calls itself inside its first loop, and neither loop has a bound of its own.
  The three entry points of the one partial function are the call \<open>Place v\<close>, the first
  loop at \<open>w\<close> (\<open>Walk v w\<close>) and the second loop at \<open>w\<close> (\<open>Copy v w\<close>). \<open>None\<close> is a run
  without result: an index out of range, or a loop or recursion that does not end.
\<close>

datatype pcall = Place NodeID | Walk NodeID NodeID | Copy NodeID NodeID



text \<open>
  The arguments that \<^verbatim>\<open>placeBlock\<close> passes on unchanged: the variant (left or right), the
  graph, \<^verbatim>\<open>root\<close>, \<^verbatim>\<open>align\<close>, \<^verbatim>\<open>delta\<close> and \<^verbatim>\<open>layers\<close>.
\<close>

type_synonym penv =
  "bool \<times> LayeredGraph \<times> (NodeID \<rightharpoonup> NodeID) \<times> (NodeID \<rightharpoonup> NodeID) \<times> int \<times> NodeID list list"

definition sideRoot :: "penv \<Rightarrow> NodeID \<Rightarrow> NodeID option option" where
  "sideRoot env w =
     (case env of (left, g, root, align, delta, layers) \<Rightarrow>
        map_option (map_option (getN root)) (sideNeighbor left g layers w))"

definition alignOf :: "penv \<Rightarrow> NodeID \<Rightarrow> NodeID" where
  "alignOf env w = (case env of (left, g, root, align, delta, layers) \<Rightarrow> getN align w)"

definition placed :: "penv \<Rightarrow> NodeID \<Rightarrow> NodeID \<Rightarrow> pstate \<Rightarrow> pstate" where
  "placed env v u st =
     (case env of (left, g, root, align, delta, layers) \<Rightarrow> afterPlaced left delta v u st)"

partial_function (option) placeBlock :: "penv \<Rightarrow> pcall \<Rightarrow> pstate \<Rightarrow> pstate option" where
  "placeBlock env c st =
     (case c of
        Place v \<Rightarrow>
          (if map_of (fst st) v \<noteq> None then Some st
           else Option.bind (placeBlock env (Walk v v) (startPlace v st))
                  (\<lambda>st1. placeBlock env (Copy v v) st1))
      | Walk v w \<Rightarrow>
          (case sideRoot env w of
             None \<Rightarrow> None
           | Some None \<Rightarrow>
               (if v \<noteq> alignOf env w then placeBlock env (Walk v (alignOf env w)) st
                else Some st)
           | Some (Some u) \<Rightarrow>
               Option.bind (placeBlock env (Place u) st)
                 (\<lambda>st1. if v \<noteq> alignOf env w
                        then placeBlock env (Walk v (alignOf env w)) (placed env v u st1)
                        else Some (placed env v u st1)))
      | Copy v w \<Rightarrow>
          (if alignOf env w \<noteq> v
           then placeBlock env (Copy v (alignOf env w)) (copyStep v (alignOf env w) st)
           else Some st))"

declare placeBlock.simps [code]


text \<open>
  The class offsets read \<^verbatim>\<open>x\<close> and \<^verbatim>\<open>sink\<close> and update \<^verbatim>\<open>shift\<close>. \<open>henv\<close> holds what the loops
  only read: the direction, the graph, \<^verbatim>\<open>root\<close>, \<^verbatim>\<open>align\<close>, \<^verbatim>\<open>delta\<close>, \<^verbatim>\<open>layers\<close>, \<^verbatim>\<open>x\<close>, \<^verbatim>\<open>sink\<close>.
\<close>

type_synonym henv =
  "direction \<times> LayeredGraph \<times> (NodeID \<rightharpoonup> NodeID) \<times> (NodeID \<rightharpoonup> NodeID) \<times> int \<times>
     NodeID list list \<times> xmap \<times> (NodeID \<rightharpoonup> NodeID)"

definition sentinel :: "direction \<Rightarrow> int" where
  "sentinel dir = (if isLeft dir then MaxInt else MinInt)"

text \<open>One round of the loop \<^verbatim>\<open>for align[v] != root[v]\<close>, after \<open>v\<close> and \<open>j\<close> have moved on.\<close>

definition descendStep :: "henv \<Rightarrow> NodeID \<Rightarrow> int \<Rightarrow> (NodeID \<rightharpoonup> int) \<Rightarrow> (NodeID \<rightharpoonup> int) option" where
  "descendStep env v j shift =
     (case env of (dir, g, root, align, delta, layers, x, sink) \<Rightarrow>
        let pv = posOf (NodePosition g) v
        in if isLeft dir
           then (if Order pv > 0
                 then (case at2 layers (Layer pv) (Order pv - 1) of
                         None \<Rightarrow> None
                       | Some u \<Rightarrow>
                           (let shifted = i64 (getI shift (getN sink v) + getX x v - (getX x u + delta))
                            in Some (if shifted < getI shift (getN sink u)
                                     then shift(getN sink u \<mapsto> shifted) else shift)))
                 else Some shift)
           else (case at layers j of
                   None \<Rightarrow> None
                 | Some layer \<Rightarrow>
                     if Order pv < int (length layer) - 1
                     then (case at2 layers (Layer pv) (Order pv + 1) of
                             None \<Rightarrow> None
                           | Some u \<Rightarrow>
                               (let shifted = i64 (getI shift (getN sink v) + getX x v - (getX x u - delta))
                                in Some (if shifted > getI shift (getN sink u)
                                         then shift(getN sink u \<mapsto> shifted) else shift)))
                     else Some shift))"

definition atBlockEnd :: "henv \<Rightarrow> NodeID \<Rightarrow> bool" where
  "atBlockEnd env v =
     (case env of (dir, g, root, align, delta, layers, x, sink) \<Rightarrow> getN align v = getN root v)"

definition blockNext :: "henv \<Rightarrow> NodeID \<Rightarrow> NodeID" where
  "blockNext env v = (case env of (dir, g, root, align, delta, layers, x, sink) \<Rightarrow> getN align v)"

definition layerStep :: "henv \<Rightarrow> int \<Rightarrow> int" where
  "layerStep env j =
     (case env of (dir, g, root, align, delta, layers, x, sink) \<Rightarrow> if isTop dir then j + 1 else j - 1)"

partial_function (option) descend ::
  "henv \<Rightarrow> NodeID \<times> int \<times> (NodeID \<rightharpoonup> int) \<Rightarrow> (NodeID \<times> int \<times> (NodeID \<rightharpoonup> int)) option" where
  "descend env st =
     (if \<not> atBlockEnd env (fst st)
      then (case descendStep env (blockNext env (fst st)) (layerStep env (fst (snd st))) (snd (snd st)) of
              None \<Rightarrow> None
            | Some shift' \<Rightarrow>
                descend env (blockNext env (fst st), layerStep env (fst (snd st)), shift'))
      else Some st)"

declare descend.simps [code]

text \<open>
  The end of one round of the \<^verbatim>\<open>for { ... }\<close> loop: \<open>None\<close> is an index out of range,
  \<open>Some None\<close> is \<^verbatim>\<open>break\<close>, \<open>Some (Some k)\<close> goes on at position \<open>k\<close>.
\<close>

definition classNext :: "henv \<Rightarrow> NodeID \<Rightarrow> int \<Rightarrow> int option option" where
  "classNext env v j =
     (case env of (dir, g, root, align, delta, layers, x, sink) \<Rightarrow>
        if isLeft dir
        then (let k = Order (posOf (NodePosition g) v) + 1
              in case at layers j of
                   None \<Rightarrow> None
                 | Some layer \<Rightarrow>
                     if k > int (length layer) - 1 then Some None
                     else (case at layer k of
                             None \<Rightarrow> None
                           | Some nk \<Rightarrow> if getN sink v \<noteq> getN sink nk then Some None else Some (Some k)))
        else (let k = Order (posOf (NodePosition g) v) - 1
              in if k < 0 then Some None
                 else (case at2 layers j k of
                         None \<Rightarrow> None
                       | Some nk \<Rightarrow> if getN sink v \<noteq> getN sink nk then Some None else Some (Some k))))"

definition layerAt :: "henv \<Rightarrow> int \<Rightarrow> int \<Rightarrow> NodeID option" where
  "layerAt env j k = (case env of (dir, g, root, align, delta, layers, x, sink) \<Rightarrow> at2 layers j k)"

partial_function (option) classLoop ::
  "henv \<Rightarrow> int \<times> int \<times> (NodeID \<rightharpoonup> int) \<Rightarrow> (NodeID \<rightharpoonup> int) option" where
  "classLoop env st =
     (case layerAt env (fst st) (fst (snd st)) of
        None \<Rightarrow> None
      | Some v0 \<Rightarrow>
          Option.bind (descend env (v0, fst st, snd (snd st)))
            (\<lambda>r. case classNext env (fst r) (fst (snd r)) of
                   None \<Rightarrow> None
                 | Some None \<Rightarrow> Some (snd (snd r))
                 | Some (Some k) \<Rightarrow> classLoop env (fst (snd r), k, snd (snd r))))"

declare classLoop.simps [code]

text \<open>The body of the loop over the layers, for layer index \<open>i\<close>.\<close>

definition classOffsets :: "henv \<Rightarrow> nat \<Rightarrow> (NodeID \<rightharpoonup> int) \<Rightarrow> (NodeID \<rightharpoonup> int) option" where
  "classOffsets env i shift =
     (case env of (dir, g, root, align, delta, layers, x, sink) \<Rightarrow>
        let layer = layers ! i
        in (case at layer (if isLeft dir then 0 else int (length layer) - 1) of
              None \<Rightarrow> None
            | Some vfirst \<Rightarrow>
                if getN sink vfirst = vfirst
                then classLoop env
                       (int i, if isLeft dir then 0 else int (length layer) - 1,
                        if getI shift (getN sink vfirst) = sentinel dir
                        then shift(getN sink vfirst \<mapsto> 0) else shift)
                else Some shift))"

primrec offsets_loop :: "henv \<Rightarrow> nat list \<Rightarrow> (NodeID \<rightharpoonup> int) \<Rightarrow> (NodeID \<rightharpoonup> int) option" where
  "offsets_loop env [] = (\<lambda>shift. Some shift)"
| "offsets_loop env (i # is) = (\<lambda>shift.
     case classOffsets env i shift of None \<Rightarrow> None | Some shift' \<Rightarrow> offsets_loop env is shift')"

primrec roots_place_loop ::
  "penv \<Rightarrow> (NodeID \<rightharpoonup> NodeID) \<Rightarrow> NodeID list \<Rightarrow> pstate \<Rightarrow> pstate option" where
  "roots_place_loop env root [] = (\<lambda>st. Some st)"
| "roots_place_loop env root (v # vs) = (\<lambda>st.
     if getN root v = v
     then (case placeBlock env (Place v) st of
             None \<Rightarrow> None
           | Some st' \<Rightarrow> roots_place_loop env root vs st')
     else roots_place_loop env root vs st)"

primrec absolute_loop :: "(NodeID \<rightharpoonup> NodeID) \<Rightarrow> (NodeID \<rightharpoonup> int) \<Rightarrow> NodeID list \<Rightarrow> xmap \<Rightarrow> xmap" where
  "absolute_loop sink shift [] = (\<lambda>x. x)"
| "absolute_loop sink shift (v # vs) = (\<lambda>x.
     absolute_loop sink shift vs (setX x v (i64 (getX x v + getI shift (getN sink v)))))"

text \<open>The visiting orders of the loops over \<^verbatim>\<open>g.NodePosition\<close> in one directional run.\<close>

record DirOrders =
  alignLayersOrder :: "NodeID list"    \<comment> \<open>\<^verbatim>\<open>Layers()\<close> in \<^verbatim>\<open>verticalAlignment\<close>\<close>
  compactLayersOrder :: "NodeID list"  \<comment> \<open>\<^verbatim>\<open>Layers()\<close> in \<^verbatim>\<open>horizontalCompaction\<close>\<close>
  compactRootsOrder :: "NodeID list"   \<comment> \<open>the loop that places the block roots\<close>
  compactFinalOrder :: "NodeID list"   \<comment> \<open>the loop of the absolute coordinates\<close>

definition horizontalCompaction ::
  "direction \<Rightarrow> DirOrders \<Rightarrow> LayeredGraph \<Rightarrow> (NodeID \<rightharpoonup> NodeID) \<Rightarrow> (NodeID \<rightharpoonup> NodeID) \<Rightarrow> int \<Rightarrow> xmap option" where
  "horizontalCompaction dir ro g root align delta =
     (let sink0 = selfMap (NodePosition g);
          shift0 = (\<lambda>v. case NodePosition g v of None \<Rightarrow> None | Some p \<Rightarrow> Some (sentinel dir))
      in case Layers (compactLayersOrder ro) g of
           None \<Rightarrow> None
         | Some layers \<Rightarrow>
             (case roots_place_loop (isLeft dir, g, root, align, delta, layers) root
                     (compactRootsOrder ro) ([], sink0, shift0) of
                None \<Rightarrow> None
              | Some (x, sink, shift) \<Rightarrow>
                  (case offsets_loop (dir, g, root, align, delta, layers, x, sink)
                          (if isTop dir then [0 ..< length layers] else rev [0 ..< length layers])
                          shift of
                     None \<Rightarrow> None
                   | Some shift' \<Rightarrow> Some (absolute_loop sink shift' (compactFinalOrder ro) x))))"

record LayoutResult =
  lrX :: xmap
  minX :: int
  maxX :: int

definition width :: "LayoutResult \<Rightarrow> int" where
  "width r = i64 (maxX r - minX r)"

primrec minmax_loop :: "xmap \<Rightarrow> int \<times> int \<Rightarrow> int \<times> int" where
  "minmax_loop [] = (\<lambda>mm. mm)"
| "minmax_loop (kv # x) = (\<lambda>(mn, mx).
     minmax_loop x (if snd kv < mn then snd kv else mn, if snd kv > mx then snd kv else mx))"

record BrandesKopfLayersNodesHorizontalAssigner =
  Delta :: int
  TopDownOnly :: bool

definition runAlgo ::
  "direction \<Rightarrow> DirOrders \<Rightarrow> LayeredGraph \<Rightarrow> (edge \<rightharpoonup> bool) \<Rightarrow> Neighbors \<Rightarrow>
     BrandesKopfLayersNodesHorizontalAssigner \<Rightarrow> LayoutResult option" where
  "runAlgo dir ro g typeOneSegments neighbors s =
     (case verticalAlignment dir (alignLayersOrder ro) g typeOneSegments neighbors of
        None \<Rightarrow> None
      | Some (root, align) \<Rightarrow>
          (case horizontalCompaction dir ro g root align (Delta s) of
             None \<Rightarrow> None
           | Some x \<Rightarrow>
               (case minmax_loop x (MaxInt, MinInt) of
                  (mn, mx) \<Rightarrow> Some \<lparr>lrX = x, minX = mn, maxX = mx\<rparr>)))"

record CoordOrders =
  neighborsSegmentsOrder :: "edge list"  \<comment> \<open>\<^verbatim>\<open>computeOrderedNeighbors\<close>, over \<^verbatim>\<open>g.Segments\<close>\<close>
  preprocessingLayersOrder :: "NodeID list"  \<comment> \<open>\<^verbatim>\<open>Layers()\<close> in \<^verbatim>\<open>preprocessing\<close>\<close>
  dirOrders :: "direction \<Rightarrow> DirOrders"

definition combine ::
  "LayeredGraph \<Rightarrow> LayoutResult \<Rightarrow> LayoutResult \<Rightarrow> LayoutResult \<Rightarrow> LayoutResult \<Rightarrow> (NodeID \<rightharpoonup> int)" where
  "combine g resTL resTR resBL resBR =
     (let best0 = resTL;
          best1 = (if width resTR < width best0 then resTR else best0);
          best2 = (if width resBL < width best1 then resBL else best1);
          best = (if width resBR < width best2 then resBR else best2);
          shiftTL = i64 (minX best - minX resTL);
          shiftTR = i64 (maxX best - maxX resTR);
          shiftBL = i64 (minX best - minX resBL);
          shiftBR = i64 (maxX best - maxX resBR)
      in (\<lambda>n. case NodePosition g n of
                  None \<Rightarrow> None
                | Some p \<Rightarrow>
                    (let place = sort [i64 (getX (lrX resTL) n + shiftTL),
                                       i64 (getX (lrX resTR) n + shiftTR),
                                       i64 (getX (lrX resBL) n + shiftBL),
                                       i64 (getX (lrX resBR) n + shiftBR)]
                     in Some (quot (i64 (place ! 1 + place ! 2)) 2))))"

definition NodesHorizontalCoordinates ::
  "BrandesKopfLayersNodesHorizontalAssigner \<Rightarrow> CoordOrders \<Rightarrow> LayeredGraph \<Rightarrow> (NodeID \<rightharpoonup> int) option" where
  "NodesHorizontalCoordinates s ro g =
     do {
       neighbors \<leftarrow> computeOrderedNeighbors (neighborsSegmentsOrder ro) g;
       typeOneSegments \<leftarrow> preprocessing (preprocessingLayersOrder ro) g neighbors;
       resTL \<leftarrow> runAlgo TopLeft (dirOrders ro TopLeft) g typeOneSegments neighbors s;
       resTR \<leftarrow> runAlgo TopRight (dirOrders ro TopRight) g typeOneSegments neighbors s;
       resBL \<leftarrow> (if \<not> TopDownOnly s
                 then runAlgo BottomLeft (dirOrders ro BottomLeft) g typeOneSegments neighbors s
                 else Some resTL);
       resBR \<leftarrow> (if \<not> TopDownOnly s
                 then runAlgo BottomRight (dirOrders ro BottomRight) g typeOneSegments neighbors s
                 else Some resTR);
       Some (combine g resTL resTR resBL resBR)
     }"

text \<open>Example layered graphs and visiting orders for the horizontal assigner.\<close>

definition sameOrders :: "NodeID list \<Rightarrow> edge list \<Rightarrow> CoordOrders" where
  "sameOrders ks es =
     \<lparr>neighborsSegmentsOrder = es, preprocessingLayersOrder = ks,
      dirOrders = (\<lambda>d. \<lparr>alignLayersOrder = ks, compactLayersOrder = ks,
                           compactRootsOrder = ks, compactFinalOrder = ks\<rparr>)\<rparr>"

text \<open>
  Two layers: node 10 and the dummies 11, 12 above, the dummies 21, 22 below, and the two
  inner segments \<open>(11, 21)\<close> and \<open>(12, 22)\<close>, which run side by side and do not cross.
\<close>

definition lg_inner :: LayeredGraph where
  "lg_inner = \<lparr>Segments = [(11, 21) \<mapsto> True, (12, 22) \<mapsto> True],
     Dummy = [11 \<mapsto> True, 12 \<mapsto> True, 21 \<mapsto> True, 22 \<mapsto> True],
     NodePosition = [10 \<mapsto> \<lparr>Layer = 0, Order = 0\<rparr>, 11 \<mapsto> \<lparr>Layer = 0, Order = 1\<rparr>,
        12 \<mapsto> \<lparr>Layer = 0, Order = 2\<rparr>, 21 \<mapsto> \<lparr>Layer = 1, Order = 0\<rparr>,
        22 \<mapsto> \<lparr>Layer = 1, Order = 1\<rparr>],
     LgEdges = Map.empty\<rparr>"

text \<open>Two layers: nodes 1, 2 above, nodes 3, 4 below, and the segments \<open>(1, 3)\<close>, \<open>(1, 4)\<close>.\<close>

definition lg_fan :: LayeredGraph where
  "lg_fan = \<lparr>Segments = [(1, 3) \<mapsto> True, (1, 4) \<mapsto> True], Dummy = Map.empty,
     NodePosition = [1 \<mapsto> \<lparr>Layer = 0, Order = 0\<rparr>, 2 \<mapsto> \<lparr>Layer = 0, Order = 1\<rparr>,
        3 \<mapsto> \<lparr>Layer = 1, Order = 0\<rparr>, 4 \<mapsto> \<lparr>Layer = 1, Order = 1\<rparr>],
     LgEdges = [(1, 3) \<mapsto> [1, 3], (1, 4) \<mapsto> [1, 4]]\<rparr>"

section \<open>Validate\<close>

lemma Validate_loop_None:
  "Validate_loop g es = None \<longleftrightarrow>
     (\<forall>e \<in> set es. Layer (posOf (NodePosition g) (fst e)) < Layer (posOf (NodePosition g) (snd e)))"
  by (induction es) (auto simp: Let_def)

text \<open>
  C3, as the code has it: \<^verbatim>\<open>Validate\<close> returns an error exactly when some segment does not
  go to a strictly larger layer number (\<open>from >= to\<close>, the "wrong direction" of its message),
  whatever the order in which the segments are visited. It does not look at how many layers
  a downward segment spans.
\<close>

theorem Validate_error_iff_not_descending:
  "range_of (Segments g) es \<Longrightarrow>
     (Validate es g \<noteq> None) \<longleftrightarrow>
     (\<exists>e \<in> dom (Segments g).
        Layer (posOf (NodePosition g) (fst e)) \<ge> Layer (posOf (NodePosition g) (snd e)))"
  unfolding Validate_def range_of_def using Validate_loop_None [of g es] by force

theorem Validate_error_iff_not_descending_witness:
  "range_of (Segments lg_skip) [(1, 3)] \<and>
   ((Validate [(1, 3)] lg_skip \<noteq> None) \<longleftrightarrow>
    (\<exists>e \<in> dom (Segments lg_skip).
        Layer (posOf (NodePosition lg_skip) (fst e)) \<ge> Layer (posOf (NodePosition lg_skip) (snd e))))"
proof -
  have r: "range_of (Segments lg_skip) [(1, 3)]"
    by (simp add: range_of_def lg_skip_def)
  show ?thesis using r Validate_error_iff_not_descending [OF r] by simp
qed

text \<open>
  C3 as stated fails: the segment \<open>(1, 3)\<close> of \<open>lg_skip\<close> spans two layers downward, and
  \<^verbatim>\<open>Validate\<close> accepts it.
\<close>

theorem Validate_accepts_long_segment:
  "range_of (Segments lg_skip) [(1, 3)] \<and> Validate [(1, 3)] lg_skip = None \<and>
   Segments lg_skip (1, 3) = Some True \<and>
   Layer (posOf (NodePosition lg_skip) 3) \<noteq> Layer (posOf (NodePosition lg_skip) 1) + 1"
  by (simp add: range_of_def lg_skip_def Validate_def posOf_def)

section \<open>LowerNeighbors\<close>

text \<open>
  C10 at the graph \<open>lg_pair\<close>: \<^verbatim>\<open>LowerNeighbors(1)\<close> returns node 1 itself, which is neither
  the lower end of a segment from 1 nor on the layer below 1. The loop appends \<^verbatim>\<open>e[0]\<close>,
  the node asked about, where \<^verbatim>\<open>UpperNeighbors\<close> appends the other end of the segment.
\<close>

theorem LowerNeighbors_returns_node_itself:
  "range_of (Segments lg_pair) [(1, 2)] \<and> LowerNeighbors [(1, 2)] lg_pair 1 = [1] \<and>
   Segments lg_pair (1, 1) = None \<and>
   Layer (posOf (NodePosition lg_pair) 1) \<noteq> Layer (posOf (NodePosition lg_pair) 1) + 1 \<and>
   UpperNeighbors [(1, 2)] lg_pair 2 = [1]"
  by (simp add: range_of_def lg_pair_def LowerNeighbors_def UpperNeighbors_def posOf_def)

section \<open>The Fenwick tree and the crossing count\<close>

lemma lb_add_small: "0 < d \<Longrightarrow> d < lb p \<Longrightarrow> lb (p + d) = lb d"
proof (induction p arbitrary: d rule: less_induct)
  case (less p)
  show ?case
  proof (cases "even p")
    case True
    then obtain q where q: "p = 2 * q" by (elim evenE)
    show ?thesis
    proof (cases "even d")
      case True
      then obtain e where e: "d = 2 * e" by (elim evenE)
      have "0 < q" using less.prems q by (cases q) (auto simp: lb_def lowbit_0)
      then have "q < p" using q by simp
      moreover have "0 < e" "e < lb q" using less.prems q e by (auto simp: lb_even)
      ultimately have "lb (q + e) = lb e" using less.IH by blast
      moreover have "p + d = 2 * (q + e)" using q e by simp
      ultimately show ?thesis using lb_even [of "q + e"] lb_even [of e] by (simp add: e)
    next
      case False
      then obtain e where e: "d = Suc (2 * e)" by (elim oddE) simp
      have "p + d = Suc (2 * (q + e))" using q e by simp
      then show ?thesis by (simp only: lb_odd e)
    qed
  next
    case False
    then obtain q where q: "p = Suc (2 * q)" by (elim oddE) simp
    with less.prems show ?thesis by (simp add: lb_odd)
  qed
qed

lemma lb_next: "0 < p \<Longrightarrow> 2 * lb p \<le> lb (p + lb p)"
proof (induction p rule: less_induct)
  case (less p)
  show ?case
  proof (cases "even p")
    case True
    then obtain q where q: "p = 2 * q" by (elim evenE)
    with less.prems have "0 < q" "q < p" by auto
    with less.IH [of q] have "2 * lb q \<le> lb (q + lb q)" by simp
    moreover have "p + lb p = 2 * (q + lb q)" by (simp add: q lb_even)
    ultimately show ?thesis using lb_even [of "q + lb q"] lb_even [of q] by (simp add: q)
  next
    case False
    then obtain q where q: "p = Suc (2 * q)" by (elim oddE) simp
    have "p + lb p = 2 * (Suc q)" by (simp add: q lb_odd)
    moreover have "0 < lb (Suc q)" using lb_pos_le [of "Suc q"] by simp
    ultimately show ?thesis using lb_even [of "Suc q"] by (simp only: q lb_odd)
  qed
qed


definition covers :: "nat \<Rightarrow> nat \<Rightarrow> bool" where
  "covers i p \<longleftrightarrow> i - lb i < p \<and> p \<le> i"

definition fen_inv :: "int list \<Rightarrow> (nat \<Rightarrow> int) \<Rightarrow> nat \<Rightarrow> bool" where
  "fen_inv bt a n \<longleftrightarrow> length bt = Suc n \<and> (\<forall>i. 0 < i \<and> i \<le> n \<longrightarrow> bt ! i = (\<Sum>k \<in> {i - lb i <.. i}. a k))"

lemma Query_loop_correct:
  "fen_inv bt a n \<Longrightarrow> p \<le> n \<Longrightarrow> Query_loop bt (int p) s = Some (s + (\<Sum>k \<in> {0 <.. p}. a k))"
proof (induction p arbitrary: s rule: less_induct)
  case (less p)
  show ?case
  proof (cases "p = 0")
    case True
    then show ?thesis by (simp add: Query_loop.simps)
  next
    case False
    then have pos: "0 < p" by simp
    have l: "0 < lb p" "lb p \<le> p" using lb_pos_le [OF pos] by auto
    have b: "bt ! p = (\<Sum>k \<in> {p - lb p <.. p}. a k)" and len: "length bt = Suc n"
      using less.prems pos by (auto simp: fen_inv_def)
    have "Query_loop bt (int p) s = Query_loop bt (int (p - lb p)) (s + bt ! p)"
      using pos less.prems(2) len l by (subst Query_loop.simps) (simp add: lowbit_lb)
    also have "\<dots> = Some (s + bt ! p + (\<Sum>k \<in> {0 <.. p - lb p}. a k))"
      using less.IH [of "p - lb p" "s + bt ! p"] less.prems l pos by simp
    also have "{0 <.. p} = {0 <.. p - lb p} \<union> {p - lb p <.. p}" using l by auto
    then have "(\<Sum>k \<in> {0 <.. p}. a k) = (\<Sum>k \<in> {0 <.. p - lb p}. a k) + (\<Sum>k \<in> {p - lb p <.. p}. a k)"
      by (simp add: sum.union_disjoint)
    then have "s + bt ! p + (\<Sum>k \<in> {0 <.. p - lb p}. a k) = s + (\<Sum>k \<in> {0 <.. p}. a k)"
      using b by simp
    finally show ?thesis .
  qed
qed

lemma covers_next: "0 < i \<Longrightarrow> covers i p \<Longrightarrow> covers (i + lb i) p"
  using lb_next [of i] lb_pos_le [of i] by (auto simp: covers_def)

lemma covers_between: "0 < i \<Longrightarrow> covers i p \<Longrightarrow> i < m \<Longrightarrow> m < i + lb i \<Longrightarrow> \<not> covers m p"
proof -
  assume a: "0 < i" "covers i p" "i < m" "m < i + lb i"
  define d where "d = m - i"
  have d: "0 < d" "d < lb i" "m = i + d" using a by (auto simp: d_def)
  have "lb m = lb d" using lb_add_small [of d i] d by simp
  moreover have "lb d \<le> d" using lb_pos_le [of d] d by simp
  ultimately have "m - lb m \<ge> i" using d by simp
  then show ?thesis using a by (auto simp: covers_def)
qed

lemma covers_self: "0 < p \<Longrightarrow> covers p p"
  using lb_pos_le [of p] by (auto simp: covers_def)

lemma covers_below: "m < p \<Longrightarrow> \<not> covers m p"
  by (auto simp: covers_def)


lemma sum_fun_upd_int:
  "finite S \<Longrightarrow> (\<Sum>k \<in> S. (a(p := a p + v)) k) = (\<Sum>k \<in> S. a k) + (if p \<in> S then v else (0::int))"
proof (induction S rule: finite_induct)
  case empty
  then show ?case by simp
next
  case (insert x F)
  then show ?case by auto
qed

definition upd_inv :: "int list \<Rightarrow> (nat \<Rightarrow> int) \<Rightarrow> nat \<Rightarrow> nat \<Rightarrow> int \<Rightarrow> nat \<Rightarrow> bool" where
  "upd_inv bt a n p0 v p \<longleftrightarrow>
     length bt = Suc n \<and> 0 < p \<and> covers p p0 \<and>
     (\<forall>i. 0 < i \<and> i \<le> n \<longrightarrow>
        bt ! i = (\<Sum>k \<in> {i - lb i <.. i}. a k) + (if i < p \<and> covers i p0 then v else 0))"

lemma upd_inv_done:
  assumes "upd_inv bt a n p0 v p" "n < p"
  shows "fen_inv bt (a(p0 := a p0 + v)) n"
proof -
  have "bt ! i = (\<Sum>k \<in> {i - lb i <.. i}. (a(p0 := a p0 + v)) k)" if i: "0 < i" "i \<le> n" for i
  proof -
    have "bt ! i = (\<Sum>k \<in> {i - lb i <.. i}. a k) + (if covers i p0 then v else 0)"
      using assms i by (auto simp: upd_inv_def)
    moreover have "covers i p0 \<longleftrightarrow> p0 \<in> {i - lb i <.. i}" by (auto simp: covers_def)
    moreover have "(\<Sum>k \<in> {i - lb i <.. i}. (a(p0 := a p0 + v)) k) =
        (\<Sum>k \<in> {i - lb i <.. i}. a k) + (if p0 \<in> {i - lb i <.. i} then v else 0)"
      by (rule sum_fun_upd_int) simp
    ultimately show ?thesis by (simp only:)
  qed
  then show ?thesis using assms by (simp add: fen_inv_def upd_inv_def)
qed

lemma upd_inv_step:
  assumes "upd_inv bt a n p0 v p" "p \<le> n"
  shows "upd_inv (bt[p := bt ! p + v]) a n p0 v (p + lb p)"
proof -
  have pos: "0 < p" and cov: "covers p p0" and len: "length bt = Suc n"
    using assms by (auto simp: upd_inv_def)
  have old: "bt ! i = (\<Sum>k \<in> {i - lb i <.. i}. a k) + (if i < p \<and> covers i p0 then v else 0)"
    if "0 < i" "i \<le> n" for i using assms that by (auto simp: upd_inv_def)
  have l: "0 < lb p" using lb_pos_le [OF pos] by simp
  have "(bt[p := bt ! p + v]) ! i =
          (\<Sum>k \<in> {i - lb i <.. i}. a k) + (if i < p + lb p \<and> covers i p0 then v else 0)"
    if i: "0 < i" "i \<le> n" for i
  proof (cases "i = p")
    case True
    then show ?thesis using old [OF i] cov l len assms(2) by simp
  next
    case False
    have "(i < p \<and> covers i p0) \<longleftrightarrow> (i < p + lb p \<and> covers i p0)"
      using covers_between [OF pos cov, of i] False by (cases "i < p") auto
    then show ?thesis using old [OF i] False by simp
  qed
  then show ?thesis using pos len covers_next [OF pos cov] by (simp add: upd_inv_def)
qed

lemma Update_loop_correct:
  "upd_inv bt a n p0 v p \<Longrightarrow>
     \<exists>bt'. Update bt (int p) v = Some bt' \<and> fen_inv bt' (a(p0 := a p0 + v)) n"
proof (induction "Suc n - p" arbitrary: bt p rule: less_induct)
  case less
  have len: "length bt = Suc n" and pos: "0 < p" using less.prems by (auto simp: upd_inv_def)
  show ?case
  proof (cases "p \<le> n")
    case False
    then have "Update bt (int p) v = Some bt" using len by (subst Update.simps) simp
    then show ?thesis using upd_inv_done [OF less.prems] False by simp
  next
    case True
    have l: "0 < lb p" using lb_pos_le [OF pos] by simp
    have "Update bt (int p) v = Update (bt[p := bt ! p + v]) (int (p + lb p)) v"
      using True len by (subst Update.simps) (simp add: lowbit_lb)
    moreover have "Suc n - (p + lb p) < Suc n - p" using True l by simp
    then have "\<exists>bt'. Update (bt[p := bt ! p + v]) (int (p + lb p)) v = Some bt' \<and>
        fen_inv bt' (a(p0 := a p0 + v)) n"
      using upd_inv_step [OF less.prems True] by (rule less.hyps)
    ultimately show ?thesis by (simp only:)
  qed
qed

lemma Update_correct:
  assumes "fen_inv bt a n" "0 < p" "p \<le> n"
  shows "\<exists>bt'. Update bt (int p) v = Some bt' \<and> fen_inv bt' (a(p := a p + v)) n"
proof -
  have "upd_inv bt a n p v p"
    using assms covers_self [of p] covers_below [of _ p] by (auto simp: upd_inv_def fen_inv_def)
  then show ?thesis by (rule Update_loop_correct)
qed


lemma fen_inv_New: "fen_inv (NewFenwickTree n) (\<lambda>k. 0) n"
proof -
  have "replicate (Suc n) (0::int) ! i = 0" if "i \<le> n" for i
    using that nth_replicate [of i "Suc n" "0::int"] by simp
  then show ?thesis by (simp add: fen_inv_def NewFenwickTree_def del: replicate.simps)
qed

lemma Query_correct:
  "fen_inv bt a n \<Longrightarrow> p \<le> n \<Longrightarrow> Query bt (int p) = Some (\<Sum>k \<in> {0 <.. p}. a k)"
  using Query_loop_correct [of bt a n p 0] by (simp add: Query_def)

text \<open>
  One row of the sweep. \<open>hit j\<close> says that top position \<open>j\<close> is joined to the row's node;
  \<open>a k\<close> counts the segments recorded so far at tree index \<open>k\<close>, i.e. top position \<open>k - 1\<close>.
\<close>

definition add_row :: "(nat \<Rightarrow> int) \<Rightarrow> (nat \<Rightarrow> bool) \<Rightarrow> nat \<Rightarrow> nat \<Rightarrow> int" where
  "add_row a hit j = (\<lambda>k. a k + (if 0 < k \<and> k \<le> j \<and> hit (k - 1) then 1 else 0))"

definition row_sum :: "(nat \<Rightarrow> int) \<Rightarrow> (nat \<Rightarrow> bool) \<Rightarrow> nat \<Rightarrow> int" where
  "row_sum a hit j = (\<Sum>j' < j. if hit j' then (\<Sum>k \<in> {0 <.. j'}. a k) else 0)"

lemma add_row_0: "add_row a hit 0 = a"
  by (auto simp: add_row_def fun_eq_iff)

lemma add_row_miss: "\<not> hit j \<Longrightarrow> add_row a hit (Suc j) = add_row a hit j"
  by (auto simp: add_row_def fun_eq_iff le_Suc_eq)

lemma add_row_hit: "hit j \<Longrightarrow> add_row a hit (Suc j) = add_row (a(Suc j := a (Suc j) + 1)) hit j"
  by (auto simp: add_row_def fun_eq_iff le_Suc_eq)

lemma row_sum_0: "row_sum a hit 0 = 0"
  by (simp add: row_sum_def)

lemma row_sum_miss: "\<not> hit j \<Longrightarrow> row_sum a hit (Suc j) = row_sum a hit j"
  by (simp add: row_sum_def)

lemma row_sum_hit:
  "hit j \<Longrightarrow> row_sum a hit (Suc j) = (\<Sum>k \<in> {0 <.. j}. a k) + row_sum (a(Suc j := a (Suc j) + 1)) hit j"
proof -
  have "row_sum (a(Suc j := a (Suc j) + 1)) hit j = row_sum a hit j"
    unfolding row_sum_def by (rule sum.cong) auto
  moreover assume "hit j"
  ultimately show ?thesis by (simp add: row_sum_def)
qed

lemma crossings_inner_correct:
  assumes "length ltop = n"
  shows "fen_inv bt a n \<Longrightarrow> j \<le> n \<Longrightarrow>
     \<exists>bt'. crossings_inner segments ltop node j (bt, s) =
              Some (bt', s + row_sum a (\<lambda>j. flag segments (ltop ! j, node)) j) \<and>
            fen_inv bt' (add_row a (\<lambda>j. flag segments (ltop ! j, node)) j) n"
proof (induction j arbitrary: bt a s)
  case 0
  then show ?case by (simp add: add_row_0 row_sum_0)
next
  case (Suc j)
  let ?hit = "\<lambda>j. flag segments (ltop ! j, node)"
  show ?case
  proof (cases "?hit j")
    case False
    from Suc.IH [OF Suc.prems(1), of s] Suc.prems(2) show ?thesis
      using False add_row_miss [of ?hit j a] row_sum_miss [of ?hit j a] by simp
  next
    case True
    define a1 where "a1 = a(Suc j := a (Suc j) + 1)"
    define q where "q = (\<Sum>k \<in> {0 <.. j}. a k)"
    obtain bt1 where u: "Update bt (int (Suc j)) 1 = Some bt1" and f1: "fen_inv bt1 a1 n"
      using Update_correct [OF Suc.prems(1), of "Suc j" 1] Suc.prems(2) unfolding a1_def by blast
    have "(\<Sum>k \<in> {0 <.. j}. a1 k) = q"
      unfolding q_def a1_def by (rule sum.cong) auto
    then have q: "Query bt1 (int j) = Some q"
      using Query_correct [OF f1, of j] Suc.prems(2) by simp
    obtain bt' where r: "crossings_inner segments ltop node j (bt1, s + q) =
          Some (bt', s + q + row_sum a1 ?hit j)"
      and f': "fen_inv bt' (add_row a1 ?hit j) n"
      using Suc.IH [OF f1, of "s + q"] Suc.prems(2) by auto
    have "crossings_inner segments ltop node (Suc j) (bt, s) =
        crossings_inner segments ltop node j (bt1, s + q)"
      using True u q by (simp add: add.commute)
    moreover have "add_row a ?hit (Suc j) = add_row a1 ?hit j"
      unfolding a1_def using True by (rule add_row_hit)
    moreover have "row_sum a ?hit (Suc j) = q + row_sum a1 ?hit j"
      unfolding a1_def q_def using True by (rule row_sum_hit)
    ultimately show ?thesis using r f' by (simp add: add.assoc)
  qed
qed

definition below :: "(edge \<rightharpoonup> bool) \<Rightarrow> NodeID list \<Rightarrow> NodeID list \<Rightarrow> nat \<Rightarrow> nat \<Rightarrow> int" where
  "below segments ltop lbottom i k =
     (\<Sum>i' \<in> {i ..< length lbottom}.
        if 0 < k \<and> k \<le> length ltop \<and> flag segments (ltop ! (k - 1), lbottom ! i') then 1 else 0)"

lemma below_step:
  "i < length lbottom \<Longrightarrow>
   add_row (below segments ltop lbottom (Suc i)) (\<lambda>j. flag segments (ltop ! j, lbottom ! i)) (length ltop) =
   below segments ltop lbottom i"
  by (auto simp: add_row_def below_def fun_eq_iff sum.atLeast_Suc_lessThan)

lemma below_end: "below segments ltop lbottom (length lbottom) = (\<lambda>k. 0)"
  by (simp add: below_def fun_eq_iff)

lemma crossings_outer_correct:
  "i \<le> length lbottom \<Longrightarrow> fen_inv bt (below segments ltop lbottom i) (length ltop) \<Longrightarrow>
     \<exists>bt'. crossings_outer segments ltop lbottom i (bt, s) =
       Some (bt', s + (\<Sum>i' < i. row_sum (below segments ltop lbottom (Suc i'))
          (\<lambda>j. flag segments (ltop ! j, lbottom ! i')) (length ltop)))"
proof (induction i arbitrary: bt s)
  case 0
  then show ?case by simp
next
  case (Suc i)
  let ?hit = "\<lambda>j. flag segments (ltop ! j, lbottom ! i)"
  let ?r = "row_sum (below segments ltop lbottom (Suc i)) ?hit (length ltop)"
  obtain bt1 where r: "crossings_inner segments ltop (lbottom ! i) (length ltop) (bt, s) = Some (bt1, s + ?r)"
    and f: "fen_inv bt1 (add_row (below segments ltop lbottom (Suc i)) ?hit (length ltop)) (length ltop)"
    using crossings_inner_correct [OF refl Suc.prems(2), of "length ltop" segments "lbottom ! i" s] by auto
  have f': "fen_inv bt1 (below segments ltop lbottom i) (length ltop)"
    using f below_step [of i lbottom segments ltop] Suc.prems(1) by simp
  from Suc.IH [OF _ f', of "s + ?r"] Suc.prems(1) r show ?case
    by (simp add: add.assoc add.commute)
qed


lemma length_concat_upt:
  "length (concat (map f [m ..< n])) = (\<Sum>x \<in> {m ..< n}. length (f x))"
  by (simp add: length_concat comp_def interv_sum_list_conv_sum_set_nat)

lemma naiveCrossings_sum:
  "naiveCrossings segments ltop lbottom =
     (\<Sum>j \<in> {0 ..< length ltop}. \<Sum>i \<in> {0 ..< length lbottom}.
        \<Sum>j' \<in> {0 ..< j}. \<Sum>i' \<in> {Suc i ..< length lbottom}.
          if flag segments (ltop ! j', lbottom ! i') \<and> flag segments (ltop ! j, lbottom ! i)
          then 1 else 0)"
  unfolding naiveCrossings_def length_concat_upt of_nat_sum
  by (intro sum.cong refl) simp

lemma below_sum:
  assumes "j \<le> length ltop"
  shows "(\<Sum>k \<in> {0 <.. j}. below segments ltop lbottom i k) =
     (\<Sum>j' \<in> {0 ..< j}. \<Sum>i' \<in> {i ..< length lbottom}.
        if flag segments (ltop ! j', lbottom ! i') then 1 else 0)"
proof -
  have "(\<Sum>k \<in> {0 <.. j}. below segments ltop lbottom i k) =
        (\<Sum>j' \<in> {0 ..< j}. below segments ltop lbottom i (Suc j'))"
    by (rule sum.reindex_bij_witness [where i = Suc and j = "\<lambda>k. k - 1"]) auto
  also have "\<dots> = (\<Sum>j' \<in> {0 ..< j}. \<Sum>i' \<in> {i ..< length lbottom}.
        if flag segments (ltop ! j', lbottom ! i') then 1 else 0)"
    using assms by (intro sum.cong refl) (simp add: below_def)
  finally show ?thesis .
qed

lemma row_sum_below:
  "row_sum (below segments ltop lbottom (Suc i)) (\<lambda>j. flag segments (ltop ! j, lbottom ! i)) (length ltop) =
     (\<Sum>j \<in> {0 ..< length ltop}. \<Sum>j' \<in> {0 ..< j}. \<Sum>i' \<in> {Suc i ..< length lbottom}.
          if flag segments (ltop ! j', lbottom ! i') \<and> flag segments (ltop ! j, lbottom ! i)
          then 1 else 0)"
proof -
  have "(if flag segments (ltop ! j, lbottom ! i)
         then (\<Sum>k \<in> {0 <.. j}. below segments ltop lbottom (Suc i) k) else 0) =
        (\<Sum>j' \<in> {0 ..< j}. \<Sum>i' \<in> {Suc i ..< length lbottom}.
          if flag segments (ltop ! j', lbottom ! i') \<and> flag segments (ltop ! j, lbottom ! i)
          then 1 else 0)" if "j < length ltop" for j
    using that by (simp add: below_sum)
  then show ?thesis
    unfolding row_sum_def lessThan_atLeast0 by (intro sum.cong refl) simp
qed

text \<open>
  C8: the count computed with the Fenwick tree is the naive count, the number of pairs of
  segments \<open>(a, c)\<close>, \<open>(b, d)\<close> with \<open>a\<close> left of \<open>b\<close> in the top layer and \<open>d\<close> left of \<open>c\<close>
  in the bottom layer (positions \<open>j' < j\<close> and \<open>i < i'\<close>); in particular the sweep always returns.
\<close>

theorem numCrossingsBetweenLayers_eq_naive:
  "numCrossingsBetweenLayers segments ltop lbottom = Some (naiveCrossings segments ltop lbottom)"
proof -
  have "fen_inv (NewFenwickTree (length ltop)) (below segments ltop lbottom (length lbottom)) (length ltop)"
    by (simp add: below_end fen_inv_New)
  from crossings_outer_correct [OF le_refl this, of 0]
  obtain bt' where "crossings_outer segments ltop lbottom (length lbottom) (NewFenwickTree (length ltop), 0) =
     Some (bt', (\<Sum>i' < length lbottom. row_sum (below segments ltop lbottom (Suc i'))
          (\<lambda>j. flag segments (ltop ! j, lbottom ! i')) (length ltop)))"
    by auto
  moreover have "(\<Sum>i' < length lbottom. row_sum (below segments ltop lbottom (Suc i'))
          (\<lambda>j. flag segments (ltop ! j, lbottom ! i')) (length ltop)) = naiveCrossings segments ltop lbottom"
    unfolding naiveCrossings_sum row_sum_below lessThan_atLeast0
    by (rule sum.swap)
  ultimately show ?thesis by (simp add: numCrossingsBetweenLayers_def)
qed


section \<open>Layer assignment and long-edge splitting\<close>

lemma neighbors_loop_set:
  "set (neighbors_loop es nb p) = set (nb p) \<union> {c. (p, c) \<in> set es}"
  by (induction es arbitrary: nb) auto

lemma hasParent_loop_flag:
  "flag (hasParent_loop es hp) n \<longleftrightarrow> flag hp n \<or> n \<in> snd ` set es"
  by (induction es arbitrary: hp) (auto simp: flag_def)

lemma roots_loop_set:
  "set (roots_loop hp ns rs) = set rs \<union> {n \<in> set ns. \<not> flag hp n}"
  by (induction ns arbitrary: rs) auto

lemma Roots_set: "set (Roots es ns) = {n \<in> set ns. n \<notin> snd ` set es}"
proof -
  have "flag (hasParent_loop es Map.empty) n \<longleftrightarrow> n \<in> snd ` set es" for n
    unfolding hasParent_loop_flag by (simp add: flag_def)
  then show ?thesis by (simp add: Roots_def roots_loop_set)
qed

definition layerOf :: "(NodeID \<rightharpoonup> LayerPosition) \<Rightarrow> NodeID \<Rightarrow> int" where
  "layerOf m v = Layer (posOf m v)"

lemma layerOf_upd: "layerOf (m(c \<mapsto> \<lparr>Layer = l, Order = 0\<rparr>)) v = (if v = c then l else layerOf m v)"
  by (simp add: layerOf_def posOf_def)

lemma layerOf_absent: "m v = None \<Longrightarrow> layerOf m v = 0"
  by (simp add: layerOf_def posOf_def zeroPosition_def)

lemma children_loop_que: "snd (children_loop p cs (m, que)) = que @ cs"
  by (induction cs arbitrary: m que) (simp_all add: Let_def)

lemma children_loop_other: "v \<notin> set cs \<Longrightarrow> fst (children_loop p cs (m, que)) v = m v"
  by (induction cs arbitrary: m que) (simp_all add: Let_def)

lemma children_loop_mono: "layerOf m v \<le> layerOf (fst (children_loop p cs (m, que))) v"
proof (induction cs arbitrary: m que)
  case Nil
  then show ?case by simp
next
  case (Cons c cs)
  let ?l = "Layer (posOf m p) + 1"
  let ?m1 = "if ?l > Layer (posOf m c) then m(c \<mapsto> \<lparr>Layer = ?l, Order = 0\<rparr>) else m"
  have "layerOf m v \<le> layerOf ?m1 v" by (auto simp: layerOf_upd) (simp add: layerOf_def)
  also have "\<dots> \<le> layerOf (fst (children_loop p cs (?m1, que @ [c]))) v" by (rule Cons.IH)
  finally show ?case by (simp add: Let_def)
qed

lemma children_loop_dom: "dom m \<subseteq> dom (fst (children_loop p cs (m, que)))"
proof (induction cs arbitrary: m que)
  case Nil
  then show ?case by simp
next
  case (Cons c cs)
  let ?l = "Layer (posOf m p) + 1"
  let ?m1 = "if ?l > Layer (posOf m c) then m(c \<mapsto> \<lparr>Layer = ?l, Order = 0\<rparr>) else m"
  have "dom m \<subseteq> dom ?m1" by auto
  also have "\<dots> \<subseteq> dom (fst (children_loop p cs (?m1, que @ [c])))" by (rule Cons.IH)
  finally show ?case by (simp add: Let_def)
qed

lemma children_loop_child:
  assumes "p \<notin> set cs" "0 \<le> layerOf m p" "c \<in> set cs"
  shows "c \<in> dom (fst (children_loop p cs (m, que))) \<and>
         layerOf m p + 1 \<le> layerOf (fst (children_loop p cs (m, que))) c"
  using assms
proof (induction cs arbitrary: m que)
  case Nil
  then show ?case by simp
next
  case (Cons d cs)
  let ?l = "Layer (posOf m p) + 1"
  let ?m1 = "if ?l > Layer (posOf m d) then m(d \<mapsto> \<lparr>Layer = ?l, Order = 0\<rparr>) else m"
  let ?m' = "fst (children_loop p cs (?m1, que @ [d]))"
  have step: "fst (children_loop p (d # cs) (m, que)) = ?m'" by (simp add: Let_def)
  have pd: "p \<noteq> d" "p \<notin> set cs" using Cons.prems by auto
  have lp: "layerOf ?m1 p = layerOf m p" using pd by (auto simp: layerOf_upd)
  show ?case
  proof (cases "c = d")
    case True
    have "d \<in> dom ?m1 \<and> layerOf m p + 1 \<le> layerOf ?m1 d"
    proof (cases "?l > Layer (posOf m d)")
      case True
      then show ?thesis by (simp add: layerOf_upd) (simp add: layerOf_def)
    next
      case False
      then have le: "layerOf m p + 1 \<le> layerOf m d" by (simp add: layerOf_def)
      then have "m d \<noteq> None" using Cons.prems(2) layerOf_absent [of m d] by auto
      then show ?thesis using False le by auto
    qed
    moreover have "dom ?m1 \<subseteq> dom ?m'" by (rule children_loop_dom)
    moreover have "layerOf ?m1 d \<le> layerOf ?m' d" by (rule children_loop_mono)
    ultimately show ?thesis unfolding step True by force
  next
    case False
    then have "c \<in> set cs" using Cons.prems by simp
    from Cons.IH [OF pd(2) _ this, of ?m1 "que @ [d]"] Cons.prems(2) lp
    show ?thesis unfolding step by simp
  qed
qed

text \<open>The proper ancestors of a node.\<close>

definition anc :: "edge set \<Rightarrow> NodeID \<Rightarrow> NodeID set" where
  "anc E v = {w. (w, v) \<in> E\<^sup>+}"

lemma anc_finite: "finite E \<Longrightarrow> finite (anc E v)"
proof -
  assume f: "finite E"
  have "w \<in> fst ` E" if "(w, v) \<in> E\<^sup>+" for w
    using that by (induction rule: converse_trancl_induct) force+
  then have "anc E v \<subseteq> fst ` E" unfolding anc_def by blast
  then show ?thesis using f by (meson finite_imageI finite_subset)
qed

lemma anc_card_le: "finite E \<Longrightarrow> card (anc E v) \<le> card E"
proof -
  assume f: "finite E"
  have "w \<in> fst ` E" if "(w, v) \<in> E\<^sup>+" for w
    using that by (induction rule: converse_trancl_induct) force+
  then have "anc E v \<subseteq> fst ` E" unfolding anc_def by blast
  then have "card (anc E v) \<le> card (fst ` E)" using f by (simp add: card_mono)
  also have "\<dots> \<le> card E" using f by (rule card_image_le)
  finally show ?thesis .
qed

lemma anc_child:
  assumes "finite E" "acyclic E" "(p, c) \<in> E"
  shows "card (anc E p) + 1 \<le> card (anc E c)"
proof -
  have "p \<notin> anc E p" using assms(2) by (auto simp: anc_def acyclic_def)
  moreover have "insert p (anc E p) \<subseteq> anc E c"
    using assms(3) by (auto simp: anc_def intro: trancl_into_trancl)
  ultimately have "card (insert p (anc E p)) \<le> card (anc E c)" "card (insert p (anc E p)) = card (anc E p) + 1"
    using anc_finite [OF assms(1), of c] anc_finite [OF assms(1), of p] card_mono [of "anc E c" "insert p (anc E p)"]
    by simp_all
  then show ?thesis by simp
qed

lemma children_loop_bound:
  assumes "\<forall>v. layerOf m v \<le> B v" "\<forall>c \<in> set cs. B p + 1 \<le> B c"
  shows "layerOf (fst (children_loop p cs (m, que))) v \<le> B v"
  using assms
proof (induction cs arbitrary: m que)
  case Nil
  then show ?case by simp
next
  case (Cons d cs)
  let ?l = "Layer (posOf m p) + 1"
  let ?m1 = "if ?l > Layer (posOf m d) then m(d \<mapsto> \<lparr>Layer = ?l, Order = 0\<rparr>) else m"
  have "layerOf m p \<le> B p" "B p + 1 \<le> B d" using Cons.prems by simp_all
  then have "?l \<le> B d" by (simp add: layerOf_def)
  then have "\<forall>v. layerOf ?m1 v \<le> B v" using Cons.prems(1) by (auto simp: layerOf_upd)
  from Cons.IH [OF this, of "que @ [d]"] Cons.prems(2) show ?case by (simp add: Let_def)
qed

definition bfs_inv :: "edge set \<Rightarrow> (NodeID \<rightharpoonup> LayerPosition) \<Rightarrow> NodeID list \<Rightarrow> bool" where
  "bfs_inv E m que \<longleftrightarrow>
     (\<forall>v. 0 \<le> layerOf m v \<and> layerOf m v \<le> int (card (anc E v))) \<and>
     (\<forall>p c. (p, c) \<in> E \<and> p \<in> dom m \<and> p \<notin> set que \<longrightarrow>
        c \<in> dom m \<and> layerOf m p + 1 \<le> layerOf m c)"

lemma bfs_inv_step:
  assumes fin: "finite E" and acy: "acyclic E" and cs: "set cs = {c. (p, c) \<in> E}"
    and inv: "bfs_inv E m (p # rest)"
  shows "bfs_inv E (fst (children_loop p cs (m, rest))) (rest @ cs)"
proof -
  let ?m' = "fst (children_loop p cs (m, rest))"
  have pcs: "p \<notin> set cs" using acy cs by (auto simp: acyclic_def)
  have nonneg: "0 \<le> layerOf m v" and bound: "layerOf m v \<le> int (card (anc E v))" for v
    using inv by (auto simp: bfs_inv_def)
  have "int (card (anc E p)) + 1 \<le> int (card (anc E c))" if "c \<in> set cs" for c
    using anc_child [OF fin acy, of p c] that cs by auto
  then have b': "layerOf ?m' v \<le> int (card (anc E v))" for v
    using children_loop_bound [of m "\<lambda>v. int (card (anc E v))" cs p rest v] bound by simp
  have n': "0 \<le> layerOf ?m' v" for v
    using nonneg [of v] children_loop_mono [of m v p cs rest] by linarith
  have closed: "c \<in> dom ?m' \<and> layerOf ?m' q + 1 \<le> layerOf ?m' c"
    if qc: "(q, c) \<in> E" and qd: "q \<in> dom ?m'" and qn: "q \<notin> set (rest @ cs)" for q c
  proof (cases "q = p")
    case True
    have "c \<in> set cs" using qc cs True by simp
    from children_loop_child [OF pcs nonneg this, of rest]
    have "c \<in> dom ?m'" "layerOf m p + 1 \<le> layerOf ?m' c" by auto
    moreover have "layerOf ?m' p = layerOf m p"
      using children_loop_other [OF pcs, of p m rest] by (simp add: layerOf_def posOf_def)
    ultimately show ?thesis using True by simp
  next
    case False
    have qcs: "q \<notin> set cs" using qn by simp
    then have same: "?m' q = m q" by (rule children_loop_other)
    then have "q \<in> dom m" using qd by (simp add: dom_def)
    moreover have "q \<notin> set (p # rest)" using False qn by simp
    ultimately have "c \<in> dom m" "layerOf m q + 1 \<le> layerOf m c"
      using inv qc by (auto simp: bfs_inv_def)
    moreover have "layerOf ?m' q = layerOf m q" using same by (simp add: layerOf_def posOf_def)
    ultimately show ?thesis
      using children_loop_dom [of m p cs rest] children_loop_mono [of m c p cs rest] by auto
  qed
  show ?thesis unfolding bfs_inv_def
  proof (intro conjI allI impI)
    fix v show "0 \<le> layerOf ?m' v" by (rule n')
  next
    fix v show "layerOf ?m' v \<le> int (card (anc E v))" by (rule b')
  next
    fix q c assume "(q, c) \<in> E \<and> q \<in> dom ?m' \<and> q \<notin> set (rest @ cs)"
    then show "c \<in> dom ?m'" using closed by blast
  next
    fix q c assume "(q, c) \<in> E \<and> q \<in> dom ?m' \<and> q \<notin> set (rest @ cs)"
    then show "layerOf ?m' q + 1 \<le> layerOf ?m' c" using closed by blast
  qed
qed

lemma queue_loop_Nil: "queue_loop neighbors [] m = Some m"
  by (subst queue_loop.simps) simp

lemma queue_loop_Cons:
  "queue_loop neighbors (p # rest) m =
     queue_loop neighbors (rest @ neighbors p) (fst (children_loop p (neighbors p) (m, rest)))"
  by (subst queue_loop.simps) (simp add: case_prod_beta children_loop_que)

lemma queue_loop_correct:
  assumes fin: "finite E" and acy: "acyclic E" and nb: "\<forall>p. set (neighbors p) = {c. (p, c) \<in> E}"
  shows "bfs_inv E m que \<Longrightarrow>
     \<exists>m'. queue_loop neighbors que m = Some m' \<and> bfs_inv E m' [] \<and> dom m \<subseteq> dom m'"
proof (induction "mset que" arbitrary: que m rule: wf_induct_rule [OF wf_mult1 [OF finite_acyclic_wf_converse [OF fin acy]]])
  case 1
  show ?case
  proof (cases que)
    case Nil
    then show ?thesis using "1.prems" by (simp add: queue_loop_Nil)
  next
    case (Cons p rest)
    let ?m1 = "fst (children_loop p (neighbors p) (m, rest))"
    let ?q1 = "rest @ neighbors p"
    have inv1: "bfs_inv E ?m1 ?q1"
      using bfs_inv_step [OF fin acy _ "1.prems" [unfolded Cons]] nb by simp
    have "\<forall>b. b \<in># mset (neighbors p) \<longrightarrow> (b, p) \<in> E\<inverse>" using nb by simp
    then have "(mset rest + mset (neighbors p), add_mset p (mset rest)) \<in> mult1 (E\<inverse>)"
      by (intro mult1I [of _ p "mset rest" _ "mset (neighbors p)"]) simp_all
    then have "(mset ?q1, mset que) \<in> mult1 (E\<inverse>)" by (simp add: Cons)
    from "1.hyps" [OF this inv1] obtain m' where
      "queue_loop neighbors ?q1 ?m1 = Some m'" "bfs_inv E m' []" "dom ?m1 \<subseteq> dom m'" by blast
    then show ?thesis using children_loop_dom [of m p "neighbors p" rest]
      by (auto simp add: Cons queue_loop_Cons)
  qed
qed

lemma bfs_inv_new_root:
  assumes "bfs_inv E m []" "r \<notin> snd ` E"
  shows "bfs_inv E (m(r \<mapsto> zeroPosition)) [r]"
proof -
  let ?m1 = "m(r \<mapsto> zeroPosition)"
  have l: "layerOf ?m1 v = (if v = r then 0 else layerOf m v)" for v
    by (simp add: layerOf_def posOf_def zeroPosition_def)
  have a: "0 \<le> layerOf ?m1 v \<and> layerOf ?m1 v \<le> int (card (anc E v))" for v
    using assms(1) by (simp add: l bfs_inv_def)
  have b: "c \<in> dom ?m1 \<and> layerOf ?m1 p + 1 \<le> layerOf ?m1 c"
    if "(p, c) \<in> E" "p \<in> dom ?m1" "p \<notin> set [r]" for p c
  proof -
    have "c \<noteq> r" using that(1) assms(2) by force
    moreover have "p \<noteq> r" "p \<in> dom m" using that by auto
    ultimately show ?thesis using assms(1) that(1) by (auto simp: l bfs_inv_def)
  qed
  show ?thesis unfolding bfs_inv_def using a b by blast
qed

lemma assignLevels_roots_correct:
  assumes fin: "finite E" and acy: "acyclic E" and nb: "\<forall>p. set (neighbors p) = {c. (p, c) \<in> E}"
  shows "bfs_inv E m [] \<Longrightarrow> \<forall>r \<in> set roots. r \<notin> snd ` E \<Longrightarrow>
     \<exists>m'. assignLevels_roots neighbors roots m = Some m' \<and> bfs_inv E m' [] \<and>
           dom m \<union> set roots \<subseteq> dom m'"
proof (induction roots arbitrary: m)
  case Nil
  then show ?case by simp
next
  case (Cons r roots)
  have "bfs_inv E (m(r \<mapsto> zeroPosition)) [r]"
    using bfs_inv_new_root [OF Cons.prems(1)] Cons.prems(2) by simp
  from queue_loop_correct [OF fin acy nb this] obtain m1 where
    m1: "queue_loop neighbors [r] (m(r \<mapsto> zeroPosition)) = Some m1" "bfs_inv E m1 []"
      "dom (m(r \<mapsto> zeroPosition)) \<subseteq> dom m1" by blast
  from Cons.IH [OF m1(2)] Cons.prems(2) obtain m' where
    "assignLevels_roots neighbors roots m1 = Some m'" "bfs_inv E m' []" "dom m1 \<union> set roots \<subseteq> dom m'"
    by auto
  moreover have "insert r (dom m) \<subseteq> dom m1" using m1(3) by simp
  ultimately show ?case using m1(1) by (simp add: subset_iff)
qed

lemma bfs_inv_empty: "bfs_inv E Map.empty []"
  by (simp add: bfs_inv_def layerOf_def posOf_def zeroPosition_def)

text \<open>What \<^verbatim>\<open>assignLevels\<close> gives on an acyclic graph whose edges join declared nodes.\<close>

definition leveled :: "edge set \<Rightarrow> (NodeID \<rightharpoonup> LayerPosition) \<Rightarrow> bool" where
  "leveled E m \<longleftrightarrow>
     (\<forall>p c. (p, c) \<in> E \<longrightarrow> layerOf m p + 1 \<le> layerOf m c) \<and>
     (\<forall>v. 0 \<le> layerOf m v \<and> layerOf m v \<le> int (card E))"

lemma assignLevels_correct:
  assumes ne: "set (neighborsOrder ro) = E" and hp: "set (hasParentOrder ro) = E"
    and ns: "set (rootsOrder ro) = V" and fin: "finite E" and acy: "acyclic E"
    and ends: "fst ` E \<subseteq> V"
  shows "\<exists>m. assignLevels ro = Some m \<and> leveled E m"
proof -
  let ?nb = "neighbors_loop (neighborsOrder ro) (\<lambda>n. [])"
  let ?roots = "Roots (hasParentOrder ro) (rootsOrder ro)"
  have nb: "\<forall>p. set (?nb p) = {c. (p, c) \<in> E}" by (simp add: neighbors_loop_set ne)
  have rs: "set ?roots = {n \<in> V. n \<notin> snd ` E}" by (simp add: Roots_set hp ns)
  then have "\<forall>r \<in> set ?roots. r \<notin> snd ` E" by simp
  from assignLevels_roots_correct [OF fin acy nb bfs_inv_empty this] obtain m where
    m: "assignLevels ro = Some m" "bfs_inv E m []" "set ?roots \<subseteq> dom m"
    by (auto simp: assignLevels_def)
  have wf: "wf E" using fin acy by (rule finite_acyclic_wf)
  have reach: "v \<in> V \<Longrightarrow> v \<in> dom m" for v
  proof (induction v rule: wf_induct_rule [OF wf])
    case (1 v)
    show ?case
    proof (cases "v \<in> snd ` E")
      case True
      then obtain p where p: "(p, v) \<in> E" by force
      then have "p \<in> V" using ends by force
      then have "p \<in> dom m" using "1.IH" p by blast
      then show ?thesis using m(2) p by (auto simp: bfs_inv_def)
    next
      case False
      then show ?thesis using "1.prems" rs m(3) by auto
    qed
  qed
  have "layerOf m p + 1 \<le> layerOf m c" if "(p, c) \<in> E" for p c
  proof -
    have "p \<in> dom m" using that ends reach by force
    then show ?thesis using m(2) that by (auto simp: bfs_inv_def)
  qed
  moreover have "0 \<le> layerOf m v \<and> layerOf m v \<le> int (card E)" for v
    using m(2) anc_card_le [OF fin, of v] by (auto simp: bfs_inv_def intro: order_trans)
  ultimately show ?thesis using m(1) by (auto simp: leveled_def)
qed

lemma unat_of_nat64: "n < 2 ^ 64 \<Longrightarrow> unat (of_nat n :: NodeID) = n"
  by (simp add: unat_of_nat)

definition fresh_ids :: "nat \<Rightarrow> nat \<Rightarrow> NodeID list" where
  "fresh_ids n k = map of_nat [n ..< n + k]"

lemma fresh_ids_0: "fresh_ids n 0 = []"
  by (simp add: fresh_ids_def)

lemma fresh_ids_Suc: "fresh_ids n (Suc k) = of_nat n # fresh_ids (Suc n) k"
proof -
  have "[n ..< n + Suc k] = n # [Suc n ..< Suc n + k]" by (simp add: upt_conv_Cons)
  then show ?thesis unfolding fresh_ids_def by (simp only: list.map)
qed

lemma fresh_ids_length: "length (fresh_ids n k) = k"
  by (simp add: fresh_ids_def)

lemma fresh_ids_unat:
  "n + k \<le> 2 ^ 64 \<Longrightarrow> v \<in> set (fresh_ids n k) \<Longrightarrow> n \<le> unat v \<and> unat v < n + k"
  by (auto simp: fresh_ids_def unat_of_nat64 simp del: of_nat_add)

lemma fake_loop_props:
  "n + length ls \<le> 2 ^ 64 \<Longrightarrow> fake_loop ls (m, ch, of_nat n) = (m', ch', nx) \<Longrightarrow>
     ch' = ch @ fresh_ids n (length ls) \<and> nx = of_nat (n + length ls) \<and>
     (\<forall>v. unat v < n \<longrightarrow> m' v = m v) \<and>
     (\<forall>i < length ls. m' (fresh_ids n (length ls) ! i) = Some \<lparr>Layer = ls ! i, Order = 0\<rparr>)"
proof (induction ls arbitrary: m ch n)
  case Nil
  then show ?case by (simp add: fresh_ids_0)
next
  case (Cons l ls)
  let ?m1 = "m(of_nat n \<mapsto> \<lparr>Layer = l, Order = 0\<rparr>)"
  have n: "n < 2 ^ 64" and b: "Suc n + length ls \<le> 2 ^ 64" using Cons.prems(1) by simp_all
  have run: "fake_loop ls (?m1, ch @ [of_nat n], of_nat (Suc n)) = (m', ch', nx)"
    using Cons.prems(2) by (simp add: add.commute)
  from Cons.IH [OF b run]
  have 1: "ch' = (ch @ [of_nat n]) @ fresh_ids (Suc n) (length ls)"
    and 2: "nx = of_nat (Suc n + length ls)"
    and 3: "\<And>v. unat v < Suc n \<Longrightarrow> m' v = ?m1 v"
    and 4: "\<And>i. i < length ls \<Longrightarrow> m' (fresh_ids (Suc n) (length ls) ! i) = Some \<lparr>Layer = ls ! i, Order = 0\<rparr>"
    by auto
  have un: "unat (of_nat n :: NodeID) = n" using n by (rule unat_of_nat64)
  have a: "ch' = ch @ fresh_ids n (length (l # ls))"
    using 1 by (simp add: fresh_ids_Suc)
  have c: "m' v = m v" if "unat v < n" for v
  proof -
    have "v \<noteq> of_nat n" using that un by auto
    then show ?thesis using 3 [of v] that by simp
  qed
  have d: "m' (fresh_ids n (length (l # ls)) ! i) = Some \<lparr>Layer = (l # ls) ! i, Order = 0\<rparr>"
    if "i < length (l # ls)" for i
  proof (cases i)
    case 0
    then show ?thesis using 3 [of "of_nat n"] un by (simp add: fresh_ids_Suc)
  next
    case (Suc j)
    then show ?thesis using 4 [of j] that by (simp add: fresh_ids_Suc)
  qed
  have e: "nx = of_nat (n + length (l # ls))" using 2 by simp
  show ?case using a e c d by blast
qed

fun unit_chain :: "(NodeID \<rightharpoonup> LayerPosition) \<Rightarrow> NodeID list \<Rightarrow> bool" where
  "unit_chain m (a # b # ns) \<longleftrightarrow> layerOf m b = layerOf m a + 1 \<and> unit_chain m (b # ns)"
| "unit_chain m ns \<longleftrightarrow> True"

lemma unit_chain_cong: "\<forall>v \<in> set ns. m' v = m v \<Longrightarrow> unit_chain m' ns = unit_chain m ns"
  by (induction m ns rule: unit_chain.induct) (simp_all add: layerOf_def posOf_def)

lemma unit_chain_fresh:
  "layerOf m a = f \<Longrightarrow> \<forall>i < k. layerOf m (fresh_ids n k ! i) = f + 1 + int i \<Longrightarrow>
     layerOf m t = f + 1 + int k \<Longrightarrow> unit_chain m (a # fresh_ids n k @ [t])"
proof (induction k arbitrary: a f n)
  case 0
  then show ?case by (simp add: fresh_ids_0)
next
  case (Suc k)
  have h: "layerOf m (of_nat n) = f + 1"
    using Suc.prems(2) [rule_format, of 0] by (simp add: fresh_ids_Suc)
  have "layerOf m (fresh_ids (Suc n) k ! i) = (f + 1) + 1 + int i" if "i < k" for i
    using Suc.prems(2) [rule_format, of "Suc i"] that by (simp add: fresh_ids_Suc)
  moreover have "layerOf m t = (f + 1) + 1 + int k" using Suc.prems(3) by simp
  ultimately have "unit_chain m (of_nat n # fresh_ids (Suc n) k @ [t])"
    using h by (intro Suc.IH) auto
  then show ?case using Suc.prems(1) h by (simp add: fresh_ids_Suc)
qed

lemma maxNodeID_loop_ge:
  "m0 \<le> maxNodeID_loop es m0 \<and> (\<forall>e \<in> set es. fst e \<le> maxNodeID_loop es m0 \<and> snd e \<le> maxNodeID_loop es m0)"
proof (induction es arbitrary: m0)
  case Nil
  then show ?case by simp
next
  case (Cons e es)
  let ?m1 = "if fst e > m0 then fst e else m0"
  let ?m2 = "if snd e > ?m1 then snd e else ?m1"
  have "m0 \<le> ?m2" "fst e \<le> ?m2" "snd e \<le> ?m2" by auto
  moreover have "?m2 \<le> maxNodeID_loop es ?m2" using Cons.IH [of ?m2] by simp
  ultimately have "m0 \<le> maxNodeID_loop es ?m2" "fst e \<le> maxNodeID_loop es ?m2" "snd e \<le> maxNodeID_loop es ?m2"
    by (meson order_trans)+
  then show ?case using Cons.IH [of ?m2] by (simp add: Let_def)
qed

lemma maxNodeID_ge: "(s, t) \<in> set es \<Longrightarrow> s \<le> maxNodeID es \<and> t \<le> maxNodeID es"
  using maxNodeID_loop_ge [of 0 es] by (force simp: maxNodeID_def)

lemma makeEdges_loop_short:
  "\<not> layerOf m (snd e) - layerOf m (fst e) > 1 \<Longrightarrow>
     makeEdges_loop (e # es) (edges, m, nx) = makeEdges_loop es (edges(e \<mapsto> [fst e, snd e]), m, nx)"
  by (simp add: layerOf_def Let_def)

lemma makeEdges_loop_long:
  "layerOf m (snd e) - layerOf m (fst e) > 1 \<Longrightarrow>
   fake_loop [layerOf m (fst e) + 1 .. layerOf m (snd e) - 1] (m, [fst e], nx) = (m1, ch1, nx1) \<Longrightarrow>
     makeEdges_loop (e # es) (edges, m, nx) = makeEdges_loop es (edges(e \<mapsto> ch1 @ [snd e]), m1, nx1)"
  by (simp add: layerOf_def Let_def)

definition chains_ok ::
  "NodeID \<Rightarrow> (NodeID \<rightharpoonup> LayerPosition) \<Rightarrow> (edge \<rightharpoonup> NodeID list) \<Rightarrow>
     (NodeID \<rightharpoonup> LayerPosition) \<Rightarrow> nat \<Rightarrow> bool" where
  "chains_ok M m0 edges m n \<longleftrightarrow>
     unat M < n \<and> (\<forall>v. v \<le> M \<longrightarrow> m v = m0 v) \<and>
     (\<forall>e ch. edges e = Some ch \<longrightarrow>
        unit_chain m ch \<and> (\<forall>v \<in> set ch. unat v < n) \<and> (\<exists>mid. ch = fst e # mid @ [snd e]))"

lemma chains_okD:
  "chains_ok M m0 edges m n \<Longrightarrow> edges e = Some ch \<Longrightarrow>
     unit_chain m ch \<and> (\<forall>v \<in> set ch. unat v < n) \<and> (\<exists>mid. ch = fst e # mid @ [snd e])"
  unfolding chains_ok_def by blast

lemma layerOf_cong: "m' v = m v \<Longrightarrow> layerOf m' v = layerOf m v"
  by (simp add: layerOf_def posOf_def)

lemma chains_ok_short:
  assumes ok: "chains_ok M m0 edges m n" and s: "fst e \<le> M" and t: "snd e \<le> M"
    and u: "layerOf m0 (snd e) = layerOf m0 (fst e) + 1"
  shows "chains_ok M m0 (edges(e \<mapsto> [fst e, snd e])) m n"
proof -
  have "layerOf m (fst e) = layerOf m0 (fst e)" "layerOf m (snd e) = layerOf m0 (snd e)"
    using ok s t by (auto simp: chains_ok_def intro: layerOf_cong)
  then have "unit_chain m [fst e, snd e]" using u by simp
  moreover have "unat (fst e) < n" "unat (snd e) < n"
    using ok s t by (auto simp: chains_ok_def word_le_nat_alt)
  moreover have "\<exists>mid. [fst e, snd e] = fst e # mid @ [snd e]" by simp
  ultimately have new: "unit_chain m [fst e, snd e] \<and> (\<forall>v \<in> set [fst e, snd e]. unat v < n) \<and>
      (\<exists>mid. [fst e, snd e] = fst e # mid @ [snd e])" by simp
  have "unit_chain m ch \<and> (\<forall>v \<in> set ch. unat v < n) \<and> (\<exists>mid. ch = fst e' # mid @ [snd e'])"
    if "(edges(e \<mapsto> [fst e, snd e])) e' = Some ch" for e' ch
  proof (cases "e' = e")
    case True
    then show ?thesis using that new by simp
  next
    case False
    then show ?thesis using that chains_okD [OF ok, of e' ch] by simp
  qed
  then show ?thesis using ok unfolding chains_ok_def by blast
qed

lemma chains_ok_long:
  assumes ok: "chains_ok M m0 edges m n" and s: "fst e \<le> M" and t: "snd e \<le> M"
    and d: "layerOf m0 (snd e) - layerOf m0 (fst e) > 1"
    and k: "k = nat (layerOf m0 (snd e) - layerOf m0 (fst e) - 1)" and nk: "n + k \<le> 2 ^ 64"
    and run: "fake_loop [layerOf m0 (fst e) + 1 .. layerOf m0 (snd e) - 1] (m, [fst e], of_nat n) = (m1, ch1, nx1)"
  shows "chains_ok M m0 (edges(e \<mapsto> ch1 @ [snd e])) m1 (n + k) \<and> nx1 = of_nat (n + k)"
proof -
  let ?ls = "[layerOf m0 (fst e) + 1 .. layerOf m0 (snd e) - 1]"
  have len: "length ?ls = k" using k d by simp
  have nth: "?ls ! i = layerOf m0 (fst e) + 1 + int i" if "i < k" for i
    using that k d by simp
  from fake_loop_props [OF _ run] nk len
  have ch1: "ch1 = [fst e] @ fresh_ids n k" and nx1: "nx1 = of_nat (n + k)"
    and old: "\<And>v. unat v < n \<Longrightarrow> m1 v = m v"
    and new: "\<And>i. i < k \<Longrightarrow> m1 (fresh_ids n k ! i) = Some \<lparr>Layer = ?ls ! i, Order = 0\<rparr>"
    by auto
  have Mn: "unat M < n" and keep: "\<And>v. v \<le> M \<Longrightarrow> m v = m0 v"
    using ok by (auto simp: chains_ok_def)
  have keep1: "m1 v = m0 v" if "v \<le> M" for v
    using old [of v] keep [OF that] that Mn by (simp add: word_le_nat_alt)
  have ls: "layerOf m1 (fst e) = layerOf m0 (fst e)" and lt: "layerOf m1 (snd e) = layerOf m0 (snd e)"
    using keep1 s t by (auto intro: layerOf_cong)
  have "layerOf m1 (fresh_ids n k ! i) = layerOf m0 (fst e) + 1 + int i" if "i < k" for i
    using new [OF that] nth [OF that] by (simp add: layerOf_def posOf_def)
  moreover have "layerOf m1 (snd e) = layerOf m0 (fst e) + 1 + int k" using lt k d by simp
  ultimately have unit: "unit_chain m1 (fst e # fresh_ids n k @ [snd e])"
    using ls by (intro unit_chain_fresh) auto
  have bound: "\<forall>v \<in> set (fst e # fresh_ids n k @ [snd e]). unat v < n + k"
    using fresh_ids_unat [OF nk] s t Mn by (auto simp: word_le_nat_alt)
  have other: "unit_chain m1 ch \<and> (\<forall>v \<in> set ch. unat v < n + k) \<and> (\<exists>mid. ch = fst e' # mid @ [snd e'])"
    if "edges e' = Some ch" for e' ch
  proof -
    have c: "unit_chain m ch" "\<forall>v \<in> set ch. unat v < n" "\<exists>mid. ch = fst e' # mid @ [snd e']"
      using chains_okD [OF ok that] by blast+
    then have "unit_chain m1 ch = unit_chain m ch" by (intro unit_chain_cong) (simp add: old)
    then show ?thesis using c by fastforce
  qed
  have "chains_ok M m0 (edges(e \<mapsto> ch1 @ [snd e])) m1 (n + k)"
    unfolding chains_ok_def
  proof (intro conjI allI impI)
    show "unat M < n + k" using Mn by simp
  next
    fix v assume "v \<le> M" then show "m1 v = m0 v" by (rule keep1)
  next
    fix e' ch assume a: "(edges(e \<mapsto> ch1 @ [snd e])) e' = Some ch"
    show "unit_chain m1 ch" using a unit other ch1 by (cases "e' = e") auto
  next
    fix e' ch assume a: "(edges(e \<mapsto> ch1 @ [snd e])) e' = Some ch"
    show "\<forall>v \<in> set ch. unat v < n + k" using a bound other ch1 by (cases "e' = e") auto
  next
    fix e' ch assume a: "(edges(e \<mapsto> ch1 @ [snd e])) e' = Some ch"
    show "\<exists>mid. ch = fst e' # mid @ [snd e']" using a other ch1 by (cases "e' = e") auto
  qed
  then show ?thesis using nx1 by simp
qed

lemma makeEdges_loop_correct:
  assumes lev: "leveled E m0" and M: "\<forall>e \<in> E. fst e \<le> M \<and> snd e \<le> M"
  shows "set es \<subseteq> E \<Longrightarrow> chains_ok M m0 edges m n \<Longrightarrow> n + length es * card E \<le> 2 ^ 64 \<Longrightarrow>
     makeEdges_loop es (edges, m, of_nat n) = (edges', m', nx) \<Longrightarrow>
     (\<exists>n'. chains_ok M m0 edges' m' n') \<and> dom edges' = dom edges \<union> set es"
proof (induction es arbitrary: edges m n)
  case Nil
  then show ?case by auto
next
  case (Cons e es)
  have eE: "e \<in> E" and sub: "set es \<subseteq> E" using Cons.prems(1) by auto
  have s: "fst e \<le> M" and t: "snd e \<le> M" using M eE by auto
  have same: "layerOf m (fst e) = layerOf m0 (fst e)" "layerOf m (snd e) = layerOf m0 (snd e)"
    using Cons.prems(2) s t by (auto simp: chains_ok_def intro: layerOf_cong)
  have step: "layerOf m0 (fst e) + 1 \<le> layerOf m0 (snd e)"
    using lev eE by (cases e) (auto simp: leveled_def)
  have lo: "0 \<le> layerOf m0 (fst e)" and hi: "layerOf m0 (snd e) \<le> int (card E)"
    using lev by (auto simp: leveled_def)
  show ?case
  proof (cases "layerOf m0 (snd e) - layerOf m0 (fst e) > 1")
    case False
    then have u: "layerOf m0 (snd e) = layerOf m0 (fst e) + 1" using step by simp
    have run: "makeEdges_loop es (edges(e \<mapsto> [fst e, snd e]), m, of_nat n) = (edges', m', nx)"
      using Cons.prems(4) False same makeEdges_loop_short [of m e es edges "of_nat n"] by simp
    have "n + length es * card E \<le> 2 ^ 64" using Cons.prems(3) by simp
    from Cons.IH [OF sub chains_ok_short [OF Cons.prems(2) s t u] this run]
    show ?thesis by auto
  next
    case True
    define k where "k = nat (layerOf m0 (snd e) - layerOf m0 (fst e) - 1)"
    have kb: "k \<le> card E" using lo hi True by (simp add: k_def)
    then have nk: "n + k \<le> 2 ^ 64" and rest: "(n + k) + length es * card E \<le> 2 ^ 64"
      using Cons.prems(3) by simp_all
    obtain m1 ch1 nx1 where
      f: "fake_loop [layerOf m0 (fst e) + 1 .. layerOf m0 (snd e) - 1] (m, [fst e], of_nat n) = (m1, ch1, nx1)"
      by (metis prod_cases3)
    from chains_ok_long [OF Cons.prems(2) s t True k_def nk f]
    have ok1: "chains_ok M m0 (edges(e \<mapsto> ch1 @ [snd e])) m1 (n + k)" and nx1: "nx1 = of_nat (n + k)"
      by auto
    have run: "makeEdges_loop es (edges(e \<mapsto> ch1 @ [snd e]), m1, of_nat (n + k)) = (edges', m', nx)"
      using Cons.prems(4) True same f nx1 makeEdges_loop_long [of m e "of_nat n" m1 ch1 nx1 es edges]
      by simp
    from Cons.IH [OF sub ok1 rest run] show ?thesis by auto
  qed
qed

lemma chain_segments_unit:
  "unit_chain m ns \<Longrightarrow> \<forall>(a, b) \<in> dom segments. layerOf m b = layerOf m a + 1 \<Longrightarrow>
     \<forall>(a, b) \<in> dom (chain_segments ns segments). layerOf m b = layerOf m a + 1"
  by (induction ns segments rule: chain_segments.induct) auto

lemma makeSegments_loop_unit:
  "\<forall>e \<in> set es. \<exists>ch. edges e = Some ch \<and> unit_chain m ch \<and> (\<exists>mid. ch = fst e # mid @ [snd e]) \<Longrightarrow>
   \<forall>(a, b) \<in> dom segments. layerOf m b = layerOf m a + 1 \<Longrightarrow>
     \<exists>segments'. makeSegments_loop edges es segments = Some segments' \<and>
        (\<forall>(a, b) \<in> dom segments'. layerOf m b = layerOf m a + 1)"
proof (induction es arbitrary: segments)
  case Nil
  then show ?case by simp
next
  case (Cons e es)
  obtain ch mid where ch: "edges e = Some ch" "unit_chain m ch" "ch = fst e # mid @ [snd e]"
    using Cons.prems(1) by auto
  show ?case
  proof (cases "mid = []")
    case True
    then have "layerOf m (snd e) = layerOf m (fst e) + 1" using ch by simp
    then have "\<forall>(a, b) \<in> dom (segments(e \<mapsto> True)). layerOf m b = layerOf m a + 1"
      using Cons.prems(2) by (cases e) auto
    moreover have "\<forall>e \<in> set es. \<exists>ch. edges e = Some ch \<and> unit_chain m ch \<and>
        (\<exists>mid. ch = fst e # mid @ [snd e])" using Cons.prems(1) by simp
    ultimately have "\<exists>segments'. makeSegments_loop edges es (segments(e \<mapsto> True)) = Some segments' \<and>
        (\<forall>(a, b) \<in> dom segments'. layerOf m b = layerOf m a + 1)" by (intro Cons.IH)
    moreover have "makeSegments_loop edges (e # es) segments =
        makeSegments_loop edges es (segments(e \<mapsto> True))" using ch True by simp
    ultimately show ?thesis by (simp only:)
  next
    case False
    then have len: "length ch > 2" using ch(3) by (cases mid) auto
    have "\<forall>(a, b) \<in> dom (chain_segments ch segments). layerOf m b = layerOf m a + 1"
      using chain_segments_unit [OF ch(2) Cons.prems(2)] .
    moreover have "\<forall>e \<in> set es. \<exists>ch. edges e = Some ch \<and> unit_chain m ch \<and>
        (\<exists>mid. ch = fst e # mid @ [snd e])" using Cons.prems(1) by simp
    ultimately have "\<exists>segments'. makeSegments_loop edges es (chain_segments ch segments) = Some segments' \<and>
        (\<forall>(a, b) \<in> dom segments'. layerOf m b = layerOf m a + 1)" by (intro Cons.IH)
    moreover have "makeSegments_loop edges (e # es) segments =
        makeSegments_loop edges es (chain_segments ch segments)" using ch(1) len by simp
    ultimately show ?thesis by (simp only:)
  qed
qed

text \<open>
  The statement of the layering claim: every segment of the layered graph goes down by
  exactly one layer.
\<close>

definition unit_segments :: "LayeredGraph \<Rightarrow> bool" where
  "unit_segments lg \<longleftrightarrow>
     (\<forall>(u, v) \<in> dom (Segments lg).
        Layer (posOf (NodePosition lg) v) = Layer (posOf (NodePosition lg) u) + 1)"

definition edge_ends_declared :: "Graph \<Rightarrow> bool" where
  "edge_ends_declared g \<longleftrightarrow> (\<forall>(u, v) \<in> dom (Edges g). u \<in> dom (Nodes g) \<and> v \<in> dom (Nodes g))"

text \<open>
  C2, as the code has it. For an acyclic graph whose edges all join keys of \<^verbatim>\<open>g.Nodes\<close>, and
  whose largest edge-endpoint id leaves room below \<open>2^64\<close> for the fake ids (at most
  \<open>|E|\<close> per edge), \<^verbatim>\<open>NewLayeredGraph\<close> returns, whatever the visiting orders of its
  \<^verbatim>\<open>range\<close> loops, and every segment \<open>(u, v)\<close> of the result has
  \<open>layer(v) = layer(u) + 1\<close>.
\<close>

theorem NewLayeredGraph_unit_segments:
  assumes ro: "build_orders g ro" and acy: "acyclic (dom (Edges g))"
    and ends: "edge_ends_declared g"
    and room: "unat (maxNodeID (maxNodeIDOrder ro)) + card (dom (Edges g)) * card (dom (Edges g)) < 2 ^ 64"
  shows "\<exists>lg. NewLayeredGraph ro = Some lg \<and> unit_segments lg"
proof -
  let ?E = "dom (Edges g)"
  let ?M = "maxNodeID (maxNodeIDOrder ro)"
  have sets: "set (neighborsOrder ro) = ?E" "set (hasParentOrder ro) = ?E"
    "set (rootsOrder ro) = dom (Nodes g)" "set (maxNodeIDOrder ro) = ?E"
    "set (makeEdgesOrder ro) = ?E" "set (makeSegmentsOrder ro) = ?E"
    and dist: "distinct (makeEdgesOrder ro)"
    using ro by (auto simp: build_orders_def range_of_def)
  have fin: "finite ?E" using sets(1) by (metis List.finite_set)
  have "fst ` ?E \<subseteq> dom (Nodes g)" using ends by (force simp: edge_ends_declared_def)
  from assignLevels_correct [OF sets(1) sets(2) sets(3) fin acy this]
  obtain m0 where m0: "assignLevels ro = Some m0" "leveled ?E m0" by blast
  have M: "\<forall>e \<in> ?E. fst e \<le> ?M \<and> snd e \<le> ?M"
    using maxNodeID_ge [of _ _ "maxNodeIDOrder ro"] sets(4) by (metis prod.collapse)
  obtain edges m nx where run:
    "makeEdges_loop (makeEdgesOrder ro) (Map.empty, m0, of_nat (unat ?M + 1)) = (edges, m, nx)"
    by (metis prod_cases3)
  have ok0: "chains_ok ?M m0 Map.empty m0 (unat ?M + 1)" by (simp add: chains_ok_def)
  have "length (makeEdgesOrder ro) = card ?E" using dist sets(5) by (metis distinct_card)
  then have "(unat ?M + 1) + length (makeEdgesOrder ro) * card ?E \<le> 2 ^ 64" using room by simp
  from makeEdges_loop_correct [OF m0(2) M _ ok0 this run] sets(5)
  obtain n' where ok: "chains_ok ?M m0 edges m n'" and dom: "dom edges = ?E" by auto
  have w: "(of_nat (unat ?M + 1) :: NodeID) = ?M + 1" by simp
  have me: "makeEdges ro m0 = (edges, m)"
    by (simp only: makeEdges_def run [unfolded w] prod.case)
  have "\<forall>e \<in> set (makeSegmentsOrder ro). \<exists>ch. edges e = Some ch \<and> unit_chain m ch \<and>
      (\<exists>mid. ch = fst e # mid @ [snd e])"
  proof
    fix e assume "e \<in> set (makeSegmentsOrder ro)"
    then obtain ch where "edges e = Some ch" using sets(6) dom by auto
    then show "\<exists>ch. edges e = Some ch \<and> unit_chain m ch \<and> (\<exists>mid. ch = fst e # mid @ [snd e])"
      using chains_okD [OF ok] by blast
  qed
  from makeSegments_loop_unit [OF this, of Map.empty]
  obtain segments where sg: "makeSegments (makeSegmentsOrder ro) edges = Some segments"
    "\<forall>(a, b) \<in> dom segments. layerOf m b = layerOf m a + 1"
    by (auto simp: makeSegments_def)
  show ?thesis
    using m0(1) me sg by (simp add: NewLayeredGraph_def unit_segments_def layerOf_def)
qed

lemma acyclic_increasing: "\<forall>(a, b) \<in> E. unat a < unat b \<Longrightarrow> acyclic E"
proof -
  assume "\<forall>(a, b) \<in> E. unat a < unat b"
  then have "acyclic (E\<inverse>)" by (intro acyclicI_order [where f = unat]) auto
  then show ?thesis by simp
qed

lemma build_orders_tri: "build_orders g_tri ro_tri"
  by (auto simp: build_orders_def range_of_def g_tri_def ro_tri_def)

lemma acyclic_tri: "acyclic (dom (Edges g_tri))"
  by (rule acyclic_increasing) (auto simp: g_tri_def split: if_splits)

lemma card_tri: "card (dom (Edges g_tri)) = 3"
proof -
  have "dom (Edges g_tri) = {(1, 2), (2, 3), (1, 3)}" by (auto simp: g_tri_def split: if_splits)
  then show ?thesis by simp
qed

theorem NewLayeredGraph_unit_segments_witness:
  "build_orders g_tri ro_tri \<and> acyclic (dom (Edges g_tri)) \<and> edge_ends_declared g_tri \<and>
   unat (maxNodeID (maxNodeIDOrder ro_tri)) + card (dom (Edges g_tri)) * card (dom (Edges g_tri)) < 2 ^ 64 \<and>
   (\<exists>lg. NewLayeredGraph ro_tri = Some lg \<and> unit_segments lg)"
proof -
  have e: "edge_ends_declared g_tri" by (auto simp: edge_ends_declared_def g_tri_def split: if_splits)
  have m: "maxNodeID (maxNodeIDOrder ro_tri) = 3" by (simp add: maxNodeID_def ro_tri_def)
  have r: "unat (maxNodeID (maxNodeIDOrder ro_tri)) + card (dom (Edges g_tri)) * card (dom (Edges g_tri)) < 2 ^ 64"
    by (simp add: m card_tri)
  show ?thesis
    using build_orders_tri acyclic_tri e r NewLayeredGraph_unit_segments [OF build_orders_tri acyclic_tri e r]
    by blast
qed

lemma build_orders_undeclared: "build_orders g_undeclared ro_undeclared"
  by (auto simp: build_orders_def range_of_def g_undeclared_def ro_undeclared_def)

lemma acyclic_undeclared: "acyclic (dom (Edges g_undeclared))"
  by (rule acyclic_increasing) (auto simp: g_undeclared_def split: if_splits)

lemma undeclared_eval:
  "map_option (\<lambda>lg. (Segments lg (1, 2), Layer (posOf (NodePosition lg) 1), Layer (posOf (NodePosition lg) 2)))
     (NewLayeredGraph ro_undeclared) = Some (Some True, 0, 0)"
  by code_simp

lemma build_orders_top: "build_orders g_top ro_top"
  by (auto simp: build_orders_def range_of_def g_top_def ro_top_def)

lemma acyclic_top: "acyclic (dom (Edges g_top))"
  by (rule acyclic_increasing) (auto simp: g_top_def unsigned_minus_1_eq_mask mask_eq_exp_minus_1 split: if_splits)

lemma top_eval:
  "map_option (\<lambda>lg. (Segments lg (0, 0), LgEdges lg (0, - 1), Layer (posOf (NodePosition lg) 0)))
     (NewLayeredGraph ro_top) = Some (Some True, Some [0, 0, - 1], 1)"
  by code_simp

text \<open>
  C2 as stated, for every acyclic graph, fails in two ways. In \<open>g_undeclared\<close> the edge
  \<open>(1, 2)\<close> joins ids that are not keys of \<^verbatim>\<open>Nodes\<close>: \<^verbatim>\<open>Roots\<close> ranges over \<^verbatim>\<open>Nodes\<close>, finds no
  root, and both ends of the segment \<open>(1, 2)\<close> stay on layer 0. In \<open>g_top\<close> every node is declared
  but one id is \<open>2^64 - 1\<close>: the first fake id wraps to 0, the id of a real node, and the long
  edge \<open>(0, 2^64 - 1)\<close> gets the chain \<open>[0, 0, 2^64 - 1]\<close> with the segment \<open>(0, 0)\<close>.
\<close>

theorem NewLayeredGraph_non_unit_segment:
  "build_orders g_undeclared ro_undeclared \<and> acyclic (dom (Edges g_undeclared)) \<and>
   map_option (\<lambda>lg. (Segments lg (1, 2), Layer (posOf (NodePosition lg) 1), Layer (posOf (NodePosition lg) 2)))
     (NewLayeredGraph ro_undeclared) = Some (Some True, 0, 0) \<and>
   build_orders g_top ro_top \<and> acyclic (dom (Edges g_top)) \<and>
   map_option (\<lambda>lg. (Segments lg (0, 0), LgEdges lg (0, - 1), Layer (posOf (NodePosition lg) 0)))
     (NewLayeredGraph ro_top) = Some (Some True, Some [0, 0, - 1], 1)"
  using build_orders_undeclared acyclic_undeclared undeclared_eval build_orders_top acyclic_top top_eval
  by (intro conjI)

section \<open>Dummy node ids\<close>

lemma tri_eval:
  "map_option (\<lambda>lg. (Dummy lg 4, posOf (NodePosition lg) 4, LgEdges lg (1, 3))) (NewLayeredGraph ro_tri) =
     Some (Some True, \<lparr>Layer = 1, Order = 0\<rparr>, Some [1, 4, 3])"
  by code_simp

text \<open>
  C4 at the graph \<open>g_tri\<close>: the triangle on the nodes 1, 2, 3 and a fourth node, 4, that
  touches no edge. \<^verbatim>\<open>maxNodeID\<close> ranges over the edges only and returns 3, so the fake node of the
  long edge \<open>(1, 3)\<close> gets the id 4: the dummy set and the keys of \<^verbatim>\<open>g.Nodes\<close> share the id 4,
  whose position is overwritten, and the allocation starts at 4 and not at \<open>max(node id) + 1 = 5\<close>.
\<close>

theorem NewLayeredGraph_dummy_id_collides:
  "build_orders g_tri ro_tri \<and> acyclic (dom (Edges g_tri)) \<and> Nodes g_tri 4 = Some node0 \<and>
   maxNodeID (maxNodeIDOrder ro_tri) = 3 \<and>
   map_option (\<lambda>lg. (Dummy lg 4, posOf (NodePosition lg) 4, LgEdges lg (1, 3))) (NewLayeredGraph ro_tri) =
     Some (Some True, \<lparr>Layer = 1, Order = 0\<rparr>, Some [1, 4, 3])"
proof -
  have "Nodes g_tri 4 = Some node0" by (simp add: g_tri_def)
  moreover have "maxNodeID (maxNodeIDOrder ro_tri) = 3" by (simp add: maxNodeID_def ro_tri_def)
  ultimately show ?thesis using build_orders_tri acyclic_tri tri_eval by (intro conjI)
qed

section \<open>Type-1 marking\<close>

text \<open>
  C6 at the graph \<open>lg_inner\<close>. In the sweep of the lower layer the interval is \<open>[0, 1]\<close> at
  node 21 and \<open>[k0, k1] = [1, 2]\<close> at node 22. The upper end 12 of the segment \<open>(12, 22)\<close> has
  order 2, inside the interval, and both ends are dummies; still \<^verbatim>\<open>preprocessing\<close> marks
  \<open>(12, 22)\<close>, because it compares \<open>k\<close>, the index of 12 in \<^verbatim>\<open>n.Up[22]\<close> (0), with the
  interval and not the order of 12 in its layer.
\<close>

theorem preprocessing_marks_inner_segment:
  "range_of (Segments lg_inner) [(12, 22), (11, 21)] \<and>
   range_of (NodePosition lg_inner) [22, 10, 12, 11, 21] \<and>
   IsInnerSegment lg_inner (12, 22) \<and> Order (posOf (NodePosition lg_inner) 12) = 2 \<and>
   Layers [22, 10, 12, 11, 21] lg_inner = Some [[10, 11, 12], [21, 22]] \<and>
   map_option (\<lambda>n. map (getL (Up n)) [21, 22])
     (computeOrderedNeighbors [(12, 22), (11, 21)] lg_inner) = Some [[11], [12]] \<and>
   Option.bind (computeOrderedNeighbors [(12, 22), (11, 21)] lg_inner)
     (\<lambda>n. map_option (\<lambda>t. map (flag t) [(11, 21), (12, 22)])
            (preprocessing [22, 10, 12, 11, 21] lg_inner n)) = Some [False, True]"
proof -
  have "range_of (Segments lg_inner) [(12, 22), (11, 21)]"
    by (auto simp: range_of_def lg_inner_def split: if_splits)
  moreover have "range_of (NodePosition lg_inner) [22, 10, 12, 11, 21]"
    by (auto simp: range_of_def lg_inner_def split: if_splits)
  moreover have "IsInnerSegment lg_inner (12, 22)"
    by (simp add: IsInnerSegment_def lg_inner_def flag_def)
  moreover have "Order (posOf (NodePosition lg_inner) 12) = 2"
    by (simp add: lg_inner_def posOf_def)
  moreover have "Layers [22, 10, 12, 11, 21] lg_inner = Some [[10, 11, 12], [21, 22]]"
    by code_simp
  moreover have "map_option (\<lambda>n. map (getL (Up n)) [21, 22])
     (computeOrderedNeighbors [(12, 22), (11, 21)] lg_inner) = Some [[11], [12]]"
    by code_simp
  moreover have "Option.bind (computeOrderedNeighbors [(12, 22), (11, 21)] lg_inner)
     (\<lambda>n. map_option (\<lambda>t. map (flag t) [(11, 21), (12, 22)])
            (preprocessing [22, 10, 12, 11, 21] lg_inner n)) = Some [False, True]"
    by code_simp
  ultimately show ?thesis by (intro conjI)
qed

section \<open>Horizontal separation\<close>

text \<open>
  C1 at the graph \<open>lg_fan\<close> with \<^verbatim>\<open>Delta = 1\<close> and \<^verbatim>\<open>TopDownOnly = true\<close>. Each layer's orders are
  \<open>0, 1\<close>. The left layout puts the nodes 3, 4 at \<open>0, 1\<close>, the shifted right layout at
  \<open>-1, 0\<close>; the two middle candidates sum to \<open>-1\<close> for node 3 and to \<open>1\<close> for node 4, and
  Go's division by 2 truncates both towards zero. Node 4, next to node 3 on layer 1, gets
  the same coordinate 0: the separation is 0 and not at least \<^verbatim>\<open>Delta\<close>.
\<close>

theorem NodesHorizontalCoordinates_adjacent_collide:
  "range_of (Segments lg_fan) [(1, 3), (1, 4)] \<and> range_of (NodePosition lg_fan) [1, 2, 3, 4] \<and>
   map (posOf (NodePosition lg_fan)) [1, 2, 3, 4] =
     [\<lparr>Layer = 0, Order = 0\<rparr>, \<lparr>Layer = 0, Order = 1\<rparr>, \<lparr>Layer = 1, Order = 0\<rparr>, \<lparr>Layer = 1, Order = 1\<rparr>] \<and>
   map_option (\<lambda>x. map x [1, 2, 3, 4])
     (NodesHorizontalCoordinates \<lparr>Delta = 1, TopDownOnly = True\<rparr>
        (sameOrders [1, 2, 3, 4] [(1, 3), (1, 4)]) lg_fan) =
     Some [Some 0, Some 1, Some 0, Some 0]"
proof -
  have "range_of (Segments lg_fan) [(1, 3), (1, 4)]"
    by (auto simp: range_of_def lg_fan_def split: if_splits)
  moreover have "range_of (NodePosition lg_fan) [1, 2, 3, 4]"
    by (auto simp: range_of_def lg_fan_def split: if_splits)
  moreover have "map (posOf (NodePosition lg_fan)) [1, 2, 3, 4] =
     [\<lparr>Layer = 0, Order = 0\<rparr>, \<lparr>Layer = 0, Order = 1\<rparr>, \<lparr>Layer = 1, Order = 0\<rparr>, \<lparr>Layer = 1, Order = 1\<rparr>]"
    by (simp add: lg_fan_def posOf_def)
  moreover have "map_option (\<lambda>x. map x [1, 2, 3, 4])
     (NodesHorizontalCoordinates \<lparr>Delta = 1, TopDownOnly = True\<rparr>
        (sameOrders [1, 2, 3, 4] [(1, 3), (1, 4)]) lg_fan) =
     Some [Some 0, Some 1, Some 0, Some 0]"
    by code_simp
  ultimately show ?thesis by (intro conjI)
qed


end
